theory Spec2Isabelle
  imports Main "HOL-Library.Word"
begin

unbundle bit_operations_syntax

section \<open>CPU sets and CPU lists of package cpus\<close>

text \<open>
  A \<open>Set\<close> is Go's \<open>[]uint64\<close>: a list of 64-bit words, word \<open>i\<close> holding the CPUs
  \<open>64 * i .. 64 * i + 63\<close>, bit 0 first. A \<open>List\<close> is Go's \<open>[][2]uint\<close>: a list of
  inclusive ranges \<open>(from, to)\<close>.

  CPU numbers, indices and lengths (Go's \<open>uint\<close>, \<open>int\<close> and \<open>uint64\<close> counters) are
  natural numbers: a slice holding CPU \<open>c\<close> has more than \<open>c div 64\<close> words, so every
  counter of a run that fits into memory stays far below \<open>2 ^ 64\<close>. In \<open>AddRange\<close>
  taken alone \<open>make\<close> is taken to succeed; \<open>List.Set\<close>, which calls \<open>AddRange\<close> once per
  range, is modelled with the limit of the Go run time on the size of an allocation.
  The words of a set, and the one-bit mask that \<open>Set.List\<close> shifts out of its word, are
  \<open>64 word\<close>, where the shift wraps to 0.
\<close>

type_synonym Set = "64 word list"
type_synonym List = "(nat \<times> nat) list"

text \<open>Panics and error returns of the package, as values.\<close>

datatype error =
    InvalidRange nat nat  \<comment> \<open>\<open>panic(fmt.Sprintf("invalid range %d-%d", from, to))\<close>\<close>
  | IndexOutOfRange       \<comment> \<open>Go's run-time panic on \<open>s[i]\<close> with \<open>i \<ge> len(s)\<close>\<close>
  | SliceBounds           \<comment> \<open>Go's run-time panic on \<open>s[0:n]\<close> with \<open>n > cap(s)\<close>\<close>
  | EmptyList             \<comment> \<open>\<open>panic("cannot remove from empty List")\<close>\<close>
  | MakeSliceLen          \<comment> \<open>Go's run-time panic \<open>makeslice: len out of range\<close>\<close>

subsection \<open>set.go: bit addressing and membership\<close>

definition wordbytesize :: nat where
  "wordbytesize = 8"

definition bitsperword :: nat where
  "bitsperword = wordbytesize * 8"

definition setBitIndex :: "nat \<Rightarrow> nat" where
  "setBitIndex cpu = cpu div bitsperword"

definition setBitMask :: "nat \<Rightarrow> 64 word" where
  "setBitMask cpu = push_bit (cpu mod bitsperword) 1"

definition IsSet :: "Set \<Rightarrow> nat \<Rightarrow> bool" where
  "IsSet s cpu =
     (if cpu \<ge> length s * bitsperword then False
      else s ! setBitIndex cpu AND setBitMask cpu \<noteq> 0)"

subsection \<open>set.go: AddRange\<close>

text \<open>
  \<open>copy(set[0:n], src)\<close>: the slice expression panics when \<open>n\<close> exceeds the capacity
  of \<open>set\<close>; \<open>copy\<close> then overwrites the first \<open>min n (len src)\<close> elements.
\<close>

definition copy_prefix :: "Set \<Rightarrow> nat \<Rightarrow> Set \<Rightarrow> error + Set" where
  "copy_prefix dst n src =
     (if n > length dst then Inl SliceBounds
      else Inr (take (min n (length src)) src @ drop (min n (length src)) dst))"

text \<open>The loop \<open>for cpu := from; cpu <= to; cpu++ { set[setBitIndex(cpu)] |= setBitMask(cpu) }\<close>.\<close>

function AddRange_loop :: "Set \<Rightarrow> nat \<Rightarrow> nat \<Rightarrow> error + Set" where
  "AddRange_loop dst cpu to =
     (if cpu \<le> to then
        (if setBitIndex cpu < length dst
         then AddRange_loop (dst[setBitIndex cpu := dst ! setBitIndex cpu OR setBitMask cpu])
                (cpu + 1) to
         else Inl IndexOutOfRange)
      else Inr dst)"
  by pat_completeness auto
termination
  by (relation "measure (\<lambda>(dst, cpu, to). to + 1 - cpu)") auto

declare AddRange_loop.simps [simp del]

definition AddRange :: "Set \<Rightarrow> nat \<Rightarrow> nat \<Rightarrow> error + Set" where
  "AddRange s from to =
     (if from > to then Inl (InvalidRange from to)
      else
        let setLen = max (to div bitsperword + 1) (length s * bitsperword);
            dst = replicate setLen 0
        in case copy_prefix dst (length s) s of
             Inl e \<Rightarrow> Inl e
           | Inr dst' \<Rightarrow> AddRange_loop dst' from to)"

subsection \<open>set.go: AddRange on backing arrays\<close>

text \<open>
  A Go slice is a view of a backing array, and two slices may share one. To state what
  \<open>AddRange\<close> does to the array of its receiver, the same method once more with the
  arrays explicit: the heap is the list of the arrays allocated so far, an array's
  address is its index, and a slice names its array, its first element and its length.
  \<open>make\<close> appends a zeroed array; \<open>copy\<close> and \<open>set[i] |= m\<close> write into the array of the
  slice they are given.
\<close>

type_synonym heap = "64 word list list"

record slice =
  base :: nat
  off :: nat
  len :: nat





definition load :: "heap \<Rightarrow> slice \<Rightarrow> nat \<Rightarrow> 64 word" where
  "load h sl i = h ! base sl ! (off sl + i)"





subsection \<open>set.go: Affinity and the shared size cache\<close>

text \<open>
  \<open>setsize\<close> is an \<open>atomic.Uint64\<close>, set to 1 by \<open>init()\<close> and touched by \<open>Affinity\<close>
  only. Go's atomic operations are sequentially consistent, so concurrent calls of
  \<open>Affinity\<close> are an interleaving of steps, each with at most one access to \<open>setsize\<close>.
  A task is one call of \<open>Affinity\<close>, with its local \<open>setlenStart\<close> and \<open>setlen\<close> and the
  place it has reached:
  \<^item> \<open>Start\<close>: before \<open>setlenStart := setsize.Load(); setlen := setlenStart\<close>;
  \<^item> \<open>Syscall\<close>: at the head of the outer loop, before \<open>make\<close> and the system call;
  \<^item> \<open>Publish\<close>: before \<open>setsize.CompareAndSwap(setlenStart, setlen)\<close>;
  \<^item> \<open>Reload\<close>: after a failed swap, before \<open>setlenStart = setsize.Load()\<close>;
  \<^item> \<open>Returned\<close> and \<open>Panicked\<close>: the call is over.

  A step of a task takes the value of \<open>setsize\<close> and the task to their new values. The
  answer of the operating system is not determined: \<open>EINVAL\<close> doubles \<open>setlen\<close> (a
  \<open>uint64\<close>, so the product wraps), another error returns, success goes on to publish.
  With \<open>setlen = 0\<close> the slice is empty and \<open>&set[0]\<close> panics before the system call;
  \<open>make\<close> may panic for any length.
\<close>

datatype pc = Start | Syscall | Publish | Reload | Returned | Panicked

record task =
  pc :: pc
  setlenStart :: "64 word"
  setlen :: "64 word"

record system =
  setsize :: "64 word"
  tasks :: "task list"

inductive task_step :: "64 word \<times> task \<Rightarrow> 64 word \<times> task \<Rightarrow> bool" where
  load:
    "pc t = Start \<Longrightarrow>
     task_step (sz, t) (sz, t\<lparr>pc := Syscall, setlenStart := sz, setlen := sz\<rparr>)"
| panic:
    "pc t = Syscall \<Longrightarrow>
     task_step (sz, t) (sz, t\<lparr>pc := Panicked\<rparr>)"
| einval:
    "pc t = Syscall \<Longrightarrow> setlen t \<noteq> 0 \<Longrightarrow>
     task_step (sz, t) (sz, t\<lparr>setlen := setlen t * 2\<rparr>)"
| failure:
    "pc t = Syscall \<Longrightarrow> setlen t \<noteq> 0 \<Longrightarrow>
     task_step (sz, t) (sz, t\<lparr>pc := Returned\<rparr>)"
| success:
    "pc t = Syscall \<Longrightarrow> setlen t \<noteq> 0 \<Longrightarrow>
     task_step (sz, t) (sz, t\<lparr>pc := Publish\<rparr>)"
| cas_swapped:
    "pc t = Publish \<Longrightarrow> sz = setlenStart t \<Longrightarrow>
     task_step (sz, t) (setlen t, t\<lparr>pc := Returned\<rparr>)"
| cas_failed:
    "pc t = Publish \<Longrightarrow> sz \<noteq> setlenStart t \<Longrightarrow>
     task_step (sz, t) (sz, t\<lparr>pc := Reload\<rparr>)"
| reload:
    "pc t = Reload \<Longrightarrow>
     task_step (sz, t)
       (sz, t\<lparr>setlenStart := sz, pc := (if sz > setlen t then Returned else Publish)\<rparr>)"

text \<open>
  The system: the cache and the calls of \<open>Affinity\<close> under way. A step starts a new
  call or lets one task take a step.
\<close>

inductive sys_step :: "system \<Rightarrow> system \<Rightarrow> bool" where
  call:
    "sys_step s (s\<lparr>tasks := tasks s @ [\<lparr>pc = Start, setlenStart = 0, setlen = 0\<rparr>]\<rparr>)"
| run:
    "i < length (tasks s) \<Longrightarrow> task_step (setsize s, tasks s ! i) (sz', t') \<Longrightarrow>
     sys_step s \<lparr>setsize = sz', tasks = (tasks s)[i := t']\<rparr>"

definition init :: system where
  "init = \<lparr>setsize = 1, tasks = []\<rparr>"

inductive reachable :: "system \<Rightarrow> bool" where
  start: "reachable init"
| step: "reachable s \<Longrightarrow> sys_step s s' \<Longrightarrow> reachable s'"

text \<open>
  The invariant of the proof: the cache and every \<open>setlen\<close> that can still be published
  are powers of two, and a task about to swap has \<open>setlenStart \<le> setlen\<close>.
\<close>

definition pow2 :: "64 word \<Rightarrow> bool" where
  "pow2 w = (\<exists>k<64. w = 2 ^ k)"

definition task_inv :: "task \<Rightarrow> bool" where
  "task_inv t =
     (case pc t of
        Syscall \<Rightarrow> setlen t = 0 \<or> (pow2 (setlen t) \<and> setlenStart t \<le> setlen t)
      | Publish \<Rightarrow> pow2 (setlen t) \<and> setlenStart t \<le> setlen t
      | Reload \<Rightarrow> pow2 (setlen t)
      | _ \<Rightarrow> True)"

definition sys_inv :: "system \<Rightarrow> bool" where
  "sys_inv s = (pow2 (setsize s) \<and> list_all task_inv (tasks s))"

subsection \<open>set.go: SetAffinity\<close>

text \<open>
  The operating system is the external collaborator: \<open>os\<close> gives the \<open>errno\<close> with which
  it answers a system call (0 for success), and \<open>issued\<close> is the list of the calls made
  so far. \<open>unix.RawSyscall(unix.SYS_SCHED_SETAFFINITY, tid, len(cpus)*wordbytesize,
  &cpus[0])\<close> hands the kernel the thread id, the size of the mask in bytes and the words
  of the mask. \<open>SetAffinity\<close> returns Go's \<open>error\<close>: \<open>Inr ()\<close> is \<open>nil\<close>.
\<close>

datatype syscall = SchedSetaffinity int nat Set

type_synonym errno = nat

definition EINVAL :: errno where
  "EINVAL = 22"

datatype go_error = Errno errno

definition SetAffinity ::
  "(syscall \<Rightarrow> errno) \<Rightarrow> syscall list \<Rightarrow> int \<Rightarrow> Set \<Rightarrow> (go_error + unit) \<times> syscall list" where
  "SetAffinity os issued tid cpus =
     (if length cpus = 0 then (Inl (Errno EINVAL), issued)
      else
        let call = SchedSetaffinity tid (length cpus * wordbytesize) cpus;
            e = os call
        in if e \<noteq> 0 then (Inl (Errno e), issued @ [call])
           else (Inr (), issued @ [call]))"

subsection \<open>set.go: Single\<close>

text \<open>
  \<open>bits.Len64\<close> of Go's standard library \<open>math/bits\<close>: the minimum number of bits
  required to represent \<open>x\<close>, and 0 for \<open>x = 0\<close>.
\<close>

function Len64_nat :: "nat \<Rightarrow> nat" where
  "Len64_nat x = (if x = 0 then 0 else 1 + Len64_nat (x div 2))"
  by pat_completeness auto
termination
  by (relation "measure id") auto

declare Len64_nat.simps [simp del]

definition Len64 :: "64 word \<Rightarrow> nat" where
  "Len64 x = Len64_nat (unat x)"

text \<open>
  The inner loop of \<open>Single\<close> over the words after the first non-zero one: \<open>False\<close> is
  its \<open>return 0, false\<close>, \<open>True\<close> its normal end.
\<close>

function Single_rest :: "Set \<Rightarrow> nat \<Rightarrow> bool" where
  "Single_rest s idx =
     (if idx < length s then (if s ! idx \<noteq> 0 then False else Single_rest s (idx + 1))
      else True)"
  by pat_completeness auto
termination
  by (relation "measure (\<lambda>(s, idx). length s - idx)") auto

declare Single_rest.simps [simp del]

text \<open>
  The loop \<open>for idx < len(s)\<close> of \<open>Single\<close>; every \<open>s[idx]\<close> is guarded by the loop
  condition. \<open>bits.Len64(el) - 1 + idx*64\<close> is computed on \<open>int\<close> with \<open>el \<noteq> 0\<close>, so
  that \<open>Len64 el \<ge> 1\<close>.
\<close>

function Single_loop :: "Set \<Rightarrow> nat \<Rightarrow> nat \<times> bool" where
  "Single_loop s idx =
     (if idx < length s then
        (if s ! idx \<noteq> 0 then
           (let el = s ! idx
            in if el = 0 \<or> el AND (el - 1) \<noteq> 0 then (0, False)
               else
                 let cpu = Len64 el - 1 + idx * 64
                 in if Single_rest s (idx + 1) then (cpu, True) else (0, False))
         else Single_loop s (idx + 1))
      else (0, False))"
  by pat_completeness auto
termination
  by (relation "measure (\<lambda>(s, idx). length s - idx)") auto

declare Single_loop.simps [simp del]

definition Single :: "Set \<Rightarrow> nat \<times> bool" where
  "Single s = (if length s = 0 then (0, False) else Single_loop s 0)"

subsection \<open>set.go: List\<close>

text \<open>
  The loops of \<open>List\<close>, in the order of the source, each with the variables it reads
  and writes as arguments and results. An access \<open>s[cpuwordidx]\<close> outside the slice is
  the panic \<open>IndexOutOfRange\<close>; a loop that never ends has the value \<open>None\<close>.

  First loop, entered when \<open>cpuwordmask != 1\<close>: inside a word, look for the next set
  bit, \<open>for { if s[cpuwordidx]&cpuwordmask != 0 { break }; cpuno++; cpuwordmask <<= 1;
  if cpuwordmask == 0 { cpuwordidx++; cpuwordmask = 1; break } }\<close>.
\<close>

partial_function (option) scanForSet ::
  "Set \<Rightarrow> nat \<Rightarrow> nat \<Rightarrow> 64 word \<Rightarrow> (error + nat \<times> nat \<times> 64 word) option" where
  "scanForSet s cpuno cpuwordidx cpuwordmask =
     (if cpuwordidx \<ge> length s then Some (Inl IndexOutOfRange)
      else if s ! cpuwordidx AND cpuwordmask \<noteq> 0
        then Some (Inr (cpuno, cpuwordidx, cpuwordmask))
      else if push_bit 1 cpuwordmask = 0
        then Some (Inr (cpuno + 1, cpuwordidx + 1, 1))
      else scanForSet s (cpuno + 1) cpuwordidx (push_bit 1 cpuwordmask))"

declare scanForSet.simps [code]

text \<open>
  Second loop, fast-forward through all-zero words:
  \<open>for cpuwordidx < setlen && s[cpuwordidx] == 0 { cpuno += 64; cpuwordidx++ }\<close>.
\<close>

function skipZeroWords :: "Set \<Rightarrow> nat \<Rightarrow> nat \<Rightarrow> nat \<times> nat" where
  "skipZeroWords s cpuno cpuwordidx =
     (if cpuwordidx < length s \<and> s ! cpuwordidx = 0
      then skipZeroWords s (cpuno + 64) (cpuwordidx + 1)
      else (cpuno, cpuwordidx))"
  by pat_completeness auto
termination
  by (relation "measure (\<lambda>(s, cpuno, cpuwordidx). length s - cpuwordidx)") auto

declare skipZeroWords.simps [simp del]

text \<open>
  Third loop, find the first set bit of a non-zero word:
  \<open>for { if s[cpuwordidx]&cpuwordmask != 0 { break }; cpuno++; cpuwordmask <<= 1 }\<close>.
  It has no test for the end of the word: it runs forever when no bit at or above the
  mask is set.
\<close>

partial_function (option) findSet ::
  "Set \<Rightarrow> nat \<Rightarrow> nat \<Rightarrow> 64 word \<Rightarrow> (error + nat \<times> 64 word) option" where
  "findSet s cpuno cpuwordidx cpuwordmask =
     (if cpuwordidx \<ge> length s then Some (Inl IndexOutOfRange)
      else if s ! cpuwordidx AND cpuwordmask \<noteq> 0 then Some (Inr (cpuno, cpuwordmask))
      else findSet s (cpuno + 1) cpuwordidx (push_bit 1 cpuwordmask))"

declare findSet.simps [code]

text \<open>
  Fourth loop, entered when \<open>cpuwordmask != 1\<close>: inside a word, look for the next unset
  bit. \<open>FoundUnset\<close> is the exit by \<open>continue findNextCPUInWord\<close> (the range is appended
  where the loop is called), \<open>WordEnd\<close> the exit by \<open>break\<close> after the mask has been
  shifted out of the word.
\<close>

datatype scan_exit = FoundUnset | WordEnd

partial_function (option) scanForUnset ::
  "Set \<Rightarrow> nat \<Rightarrow> nat \<Rightarrow> 64 word \<Rightarrow> (error + scan_exit \<times> nat \<times> nat \<times> 64 word) option" where
  "scanForUnset s cpuno cpuwordidx cpuwordmask =
     (if cpuwordidx \<ge> length s then Some (Inl IndexOutOfRange)
      else if s ! cpuwordidx AND cpuwordmask = 0
        then Some (Inr (FoundUnset, cpuno, cpuwordidx, cpuwordmask))
      else if push_bit 1 cpuwordmask = 0
        then Some (Inr (WordEnd, cpuno + 1, cpuwordidx + 1, 1))
      else scanForUnset s (cpuno + 1) cpuwordidx (push_bit 1 cpuwordmask))"

declare scanForUnset.simps [code]

text \<open>
  Fifth loop, fast-forward through all-ones words:
  \<open>for cpuwordidx < setlen && s[cpuwordidx] == ^uint64(0) { cpuno += 64; cpuwordidx++ }\<close>.
\<close>

function skipOnesWords :: "Set \<Rightarrow> nat \<Rightarrow> nat \<Rightarrow> nat \<times> nat" where
  "skipOnesWords s cpuno cpuwordidx =
     (if cpuwordidx < length s \<and> s ! cpuwordidx = NOT 0
      then skipOnesWords s (cpuno + 64) (cpuwordidx + 1)
      else (cpuno, cpuwordidx))"
  by pat_completeness auto
termination
  by (relation "measure (\<lambda>(s, cpuno, cpuwordidx). length s - cpuwordidx)") auto

declare skipOnesWords.simps [simp del]

text \<open>
  Sixth loop, find the first unset bit of a word that is not all ones:
  \<open>for { if s[cpuwordidx]&cpuwordmask == 0 { ...; break }; cpuno++; cpuwordmask <<= 1 }\<close>.
\<close>

partial_function (option) findUnset ::
  "Set \<Rightarrow> nat \<Rightarrow> nat \<Rightarrow> 64 word \<Rightarrow> (error + nat \<times> 64 word) option" where
  "findUnset s cpuno cpuwordidx cpuwordmask =
     (if cpuwordidx \<ge> length s then Some (Inl IndexOutOfRange)
      else if s ! cpuwordidx AND cpuwordmask = 0 then Some (Inr (cpuno, cpuwordmask))
      else findUnset s (cpuno + 1) cpuwordidx (push_bit 1 cpuwordmask))"

declare findUnset.simps [code]

text \<open>
  The outer loop \<open>findNextCPUInWord\<close>, with the local variables of \<open>List\<close> as arguments:
  one pass finds the start \<open>cpufrom\<close> of the next range and its end, appends the range and
  goes round again, or returns the list. \<open>None\<close> is a run that never returns,
  \<open>Some (Inl e)\<close> a panic, \<open>Some (Inr l)\<close> the list returned.
\<close>

partial_function (option) List_loop ::
  "Set \<Rightarrow> List \<Rightarrow> nat \<Rightarrow> nat \<Rightarrow> 64 word \<Rightarrow> (error + List) option" where
  "List_loop s cpulist cpuno cpuwordidx cpuwordmask =
     (case (if cpuwordmask \<noteq> 1 then scanForSet s cpuno cpuwordidx cpuwordmask
            else Some (Inr (cpuno, cpuwordidx, cpuwordmask))) of
        None \<Rightarrow> None
      | Some (Inl e) \<Rightarrow> Some (Inl e)
      | Some (Inr (cpuno, cpuwordidx, cpuwordmask)) \<Rightarrow>
     (case skipZeroWords s cpuno cpuwordidx of (cpuno, cpuwordidx) \<Rightarrow>
      if cpuwordidx \<ge> length s then Some (Inr cpulist)
      else
     (case findSet s cpuno cpuwordidx cpuwordmask of
        None \<Rightarrow> None
      | Some (Inl e) \<Rightarrow> Some (Inl e)
      | Some (Inr (cpuno, cpuwordmask)) \<Rightarrow>
     (let cpufrom = cpuno;
          cpuno = cpuno + 1;
          cpuwordmask = push_bit 1 cpuwordmask;
          (cpuwordidx, cpuwordmask) =
            (if cpuwordmask = 0 then (cpuwordidx + 1, 1) else (cpuwordidx, cpuwordmask))
      in
     (case (if cpuwordmask \<noteq> 1 then scanForUnset s cpuno cpuwordidx cpuwordmask
            else Some (Inr (WordEnd, cpuno, cpuwordidx, cpuwordmask))) of
        None \<Rightarrow> None
      | Some (Inl e) \<Rightarrow> Some (Inl e)
      | Some (Inr (FoundUnset, cpuno, cpuwordidx, cpuwordmask)) \<Rightarrow>
          List_loop s (cpulist @ [(cpufrom, cpuno - 1)]) cpuno cpuwordidx cpuwordmask
      | Some (Inr (WordEnd, cpuno, cpuwordidx, cpuwordmask)) \<Rightarrow>
     (case skipOnesWords s cpuno cpuwordidx of (cpuno, cpuwordidx) \<Rightarrow>
      if cpuwordidx \<ge> length s then Some (Inr (cpulist @ [(cpufrom, cpuno - 1)]))
      else
     (case findUnset s cpuno cpuwordidx cpuwordmask of
        None \<Rightarrow> None
      | Some (Inl e) \<Rightarrow> Some (Inl e)
      | Some (Inr (cpuno, cpuwordmask)) \<Rightarrow>
          List_loop s (cpulist @ [(cpufrom, cpuno - 1)]) cpuno cpuwordidx cpuwordmask)))))))"

declare List_loop.simps [code]

definition Set_List :: "Set \<Rightarrow> (error + List) option" where
  "Set_List s = List_loop s [] 0 0 1"

subsection \<open>list.go: Set\<close>

text \<open>
  \<open>make(Set, setLen)\<close> with the check of the Go run time (\<open>runtime.makeslice\<close>): a slice
  of more than \<open>maxAlloc\<close> bytes is refused with the panic \<open>makeslice: len out of range\<close>.
  \<open>maxAlloc\<close> depends on the platform (\<open>2 ^ 48\<close> on 64-bit Linux) and is a parameter.
\<close>

definition makeslice :: "nat \<Rightarrow> nat \<Rightarrow> error + Set" where
  "makeslice maxAlloc n =
     (if n * wordbytesize > maxAlloc then Inl MakeSliceLen else Inr (replicate n 0))"

text \<open>\<open>AddRange\<close> as above, its \<open>make\<close> with this check.\<close>

definition AddRange_alloc :: "nat \<Rightarrow> Set \<Rightarrow> nat \<Rightarrow> nat \<Rightarrow> error + Set" where
  "AddRange_alloc maxAlloc s from to =
     (if from > to then Inl (InvalidRange from to)
      else
        let setLen = max (to div bitsperword + 1) (length s * bitsperword)
        in case makeslice maxAlloc setLen of
             Inl e \<Rightarrow> Inl e
           | Inr dst \<Rightarrow>
               (case copy_prefix dst (length s) s of
                  Inl e \<Rightarrow> Inl e
                | Inr dst' \<Rightarrow> AddRange_loop dst' from to))"

text \<open>
  \<open>for i := range l { r := l[len(l)-i-1]; s = s.AddRange(r[0], r[1]) }\<close>, starting from
  the nil set; a panic of \<open>AddRange\<close> ends the run.
\<close>

function Set_loop :: "nat \<Rightarrow> List \<Rightarrow> nat \<Rightarrow> Set \<Rightarrow> error + Set" where
  "Set_loop maxAlloc l i s =
     (if i < length l then
        (let r = l ! (length l - i - 1)
         in case AddRange_alloc maxAlloc s (fst r) (snd r) of
              Inl e \<Rightarrow> Inl e
            | Inr s' \<Rightarrow> Set_loop maxAlloc l (i + 1) s')
      else Inr s)"
  by pat_completeness auto
termination
  by (relation "measure (\<lambda>(maxAlloc, l, i, s). length l - i)") auto

declare Set_loop.simps [simp del]

definition List_Set :: "nat \<Rightarrow> List \<Rightarrow> error + Set" where
  "List_Set maxAlloc l = (if length l = 0 then Inr [] else Set_loop maxAlloc l 0 [])"

subsection \<open>list.go: IsOverlapping and Overlap\<close>

text \<open>
  Both methods run an inner \<open>for\<close> loop over \<open>r2idx\<close> inside \<open>for _, r1 := range l\<close>.
  The inner loop leaves either by \<open>return\<close> (\<open>Return\<close>, with the method's result) or by
  \<open>break\<close> (\<open>Break\<close>, with the variables the outer loop carries on).
\<close>

datatype ('r, 'st) inner_exit = Return 'r | Break 'st

function IsOverlapping_inner :: "nat \<times> nat \<Rightarrow> List \<Rightarrow> nat \<Rightarrow> (bool, nat) inner_exit" where
  "IsOverlapping_inner r1 another r2idx =
     (if r2idx \<ge> length another then Return False
      else if snd r1 \<ge> fst (another ! r2idx) \<and> fst r1 \<le> snd (another ! r2idx) then Return True
      else if fst (another ! r2idx) > snd r1 then Break r2idx
      else IsOverlapping_inner r1 another (r2idx + 1))"
  by pat_completeness auto
termination
  by (relation "measure (\<lambda>(r1, another, r2idx). length another - r2idx)") auto

declare IsOverlapping_inner.simps [simp del]

fun IsOverlapping_outer :: "List \<Rightarrow> List \<Rightarrow> nat \<Rightarrow> bool" where
  "IsOverlapping_outer [] another r2idx = False"
| "IsOverlapping_outer (r1 # l) another r2idx =
     (case IsOverlapping_inner r1 another r2idx of
        Return b \<Rightarrow> b
      | Break r2idx' \<Rightarrow> IsOverlapping_outer l another r2idx')"

definition List_IsOverlapping :: "List \<Rightarrow> List \<Rightarrow> bool" where
  "List_IsOverlapping l another = IsOverlapping_outer l another 0"

function Overlap_inner ::
  "nat \<times> nat \<Rightarrow> List \<Rightarrow> List \<Rightarrow> nat \<Rightarrow> (List, List \<times> nat) inner_exit" where
  "Overlap_inner r1 another overlaps r2idx =
     (if r2idx \<ge> length another then Return overlaps
      else
        let overlaps =
              (if snd r1 \<ge> fst (another ! r2idx) \<and> fst r1 \<le> snd (another ! r2idx)
               then overlaps @ [(max (fst r1) (fst (another ! r2idx)),
                                 min (snd r1) (snd (another ! r2idx)))]
               else overlaps)
        in if snd (another ! r2idx) > snd r1 then Break (overlaps, r2idx)
           else Overlap_inner r1 another overlaps (r2idx + 1))"
  by pat_completeness auto
termination
  by (relation "measure (\<lambda>(r1, another, overlaps, r2idx). length another - r2idx)") auto

declare Overlap_inner.simps [simp del]

fun Overlap_outer :: "List \<Rightarrow> List \<Rightarrow> List \<Rightarrow> nat \<Rightarrow> List" where
  "Overlap_outer [] another overlaps r2idx = overlaps"
| "Overlap_outer (r1 # l) another overlaps r2idx =
     (case Overlap_inner r1 another overlaps r2idx of
        Return res \<Rightarrow> res
      | Break (overlaps', r2idx') \<Rightarrow> Overlap_outer l another overlaps' r2idx')"

definition List_Overlap :: "List \<Rightarrow> List \<Rightarrow> List" where
  "List_Overlap l another = Overlap_outer l another [] 0"

subsection \<open>list.go: Remove\<close>

text \<open>
  \<open>append(List{[2]uint{cpu + 1, lowestRange[1]}}, l[1:]...)\<close> and \<open>slices.Clone(l[1:])\<close>;
  \<open>l[1:]\<close> is \<open>tl l\<close> on the non-empty list the guard leaves.
\<close>

definition Remove :: "List \<Rightarrow> error + (nat \<times> List)" where
  "Remove l =
     (if length l = 0 then Inl EmptyList
      else
        let lowestRange = l ! 0
        in if fst lowestRange < snd lowestRange
           then Inr (fst lowestRange, [(fst lowestRange + 1, snd lowestRange)] @ tl l)
           else Inr (fst lowestRange, tl l))"

subsection \<open>Abstract membership of a range list, canonical form\<close>

text \<open>CPU \<open>c\<close> lies in one of the ranges of the list.\<close>

fun inList :: "List \<Rightarrow> nat \<Rightarrow> bool" where
  "inList [] c = False"
| "inList (r # rs) c = ((fst r \<le> c \<and> c \<le> snd r) \<or> inList rs c)"

text \<open>
  Canonical form as the spec's data model has it: every range has \<open>from \<le> to\<close>, the
  ranges are listed from lowest to highest and do not overlap (they may touch).
\<close>

fun canonical :: "List \<Rightarrow> bool" where
  "canonical [] = True"
| "canonical [r] = (fst r \<le> snd r)"
| "canonical (r # r' # rs) = (fst r \<le> snd r \<and> snd r < fst r' \<and> canonical (r' # rs))"

text \<open>
  The two loops of \<open>Overlap\<close> as one recursion over both lists, for the proofs:
  \<open>Overlap_outer l another acc i = acc @ overlap_merge l (drop i another)\<close>.
\<close>

fun overlap_merge :: "List \<Rightarrow> List \<Rightarrow> List" where
  "overlap_merge (r1 # l) (r2 # m) =
     (if snd r1 \<ge> fst r2 \<and> fst r1 \<le> snd r2
      then [(max (fst r1) (fst r2), min (snd r1) (snd r2))] else []) @
     (if snd r2 > snd r1 then overlap_merge l (r2 # m) else overlap_merge (r1 # l) m)"
| "overlap_merge [] m = []"
| "overlap_merge l [] = []"

text \<open>
  The form of the lists \<open>Set.List\<close> returns, with \<open>lo = 0\<close>: every range has
  \<open>from \<le> to\<close> and starts at or above \<open>lo\<close>, and the next range starts at least two
  above its \<open>to\<close>, so that consecutive ranges are increasing, disjoint and leave at
  least one CPU number between them.
\<close>

fun separated :: "nat \<Rightarrow> List \<Rightarrow> bool" where
  "separated lo [] = True"
| "separated lo (r # rs) = (lo \<le> fst r \<and> fst r \<le> snd r \<and> separated (snd r + 2) rs)"

section \<open>Properties\<close>

subsection \<open>Bits of a word and membership\<close>

lemma IsSet_iff:
  "IsSet s c \<longleftrightarrow> c < length s * 64 \<and> bit (s ! (c div 64)) (c mod 64)"
  by (auto simp: IsSet_def bitsperword_def wordbytesize_def setBitIndex_def setBitMask_def
        bit_iff_and_push_bit_not_eq_0)

lemma inList_iff: "inList l c \<longleftrightarrow> (\<exists>r \<in> set l. fst r \<le> c \<and> c \<le> snd r)"
  by (induction l) auto

lemma canonical_lower: "canonical (r # rs) \<Longrightarrow> inList (r # rs) c \<Longrightarrow> fst r \<le> c"
proof (induction rs arbitrary: r)
  case Nil
  then show ?case by simp
next
  case (Cons a rs)
  then show ?case by fastforce
qed

lemma canonical_tl: "canonical (r # rs) \<Longrightarrow> canonical rs"
  by (cases rs) auto

subsection \<open>AddRange\<close>

lemma IsSet_update:
  assumes "cpu div 64 < length dst"
  shows "IsSet (dst[setBitIndex cpu := dst ! setBitIndex cpu OR setBitMask cpu]) c
         \<longleftrightarrow> c = cpu \<or> IsSet dst c"
proof (cases "c div 64 = cpu div 64")
  case True
  have "c = cpu \<longleftrightarrow> c mod 64 = cpu mod 64"
    using True by (metis div_mult_mod_eq)
  with True assms show ?thesis
    by (auto simp: IsSet_iff setBitIndex_def setBitMask_def bitsperword_def wordbytesize_def
          bit_or_iff bit_push_bit_iff bit_1_iff bit_exp_iff)
next
  case False
  then have "c \<noteq> cpu" by auto
  with False assms show ?thesis
    by (auto simp: IsSet_iff setBitIndex_def bitsperword_def wordbytesize_def)
qed

lemma AddRange_loop_correct:
  "to div 64 < length dst \<Longrightarrow>
   \<exists>r. AddRange_loop dst cpu to = Inr r \<and> length r = length dst \<and>
       (\<forall>c. IsSet r c \<longleftrightarrow> (cpu \<le> c \<and> c \<le> to) \<or> IsSet dst c)"
proof (induction dst cpu to rule: AddRange_loop.induct)
  case (1 dst cpu to)
  show ?case
  proof (cases "cpu \<le> to")
    case False
    then show ?thesis by (subst AddRange_loop.simps) auto
  next
    case True
    then have idx: "cpu div 64 < length dst"
      using "1.prems" by (meson div_le_mono le_less_trans)
    then have idx': "setBitIndex cpu < length dst"
      by (simp add: setBitIndex_def bitsperword_def wordbytesize_def)
    let ?d = "dst[setBitIndex cpu := dst ! setBitIndex cpu OR setBitMask cpu]"
    from "1.IH"[OF True idx'] "1.prems"
    obtain r where r: "AddRange_loop ?d (cpu + 1) to = Inr r" "length r = length ?d"
      "\<forall>c. IsSet r c \<longleftrightarrow> (cpu + 1 \<le> c \<and> c \<le> to) \<or> IsSet ?d c"
      by auto
    have "AddRange_loop dst cpu to = Inr r"
      using True idx' r(1) by (subst AddRange_loop.simps) simp
    moreover have "\<forall>c. IsSet r c \<longleftrightarrow> (cpu \<le> c \<and> c \<le> to) \<or> IsSet dst c"
      using r(3) IsSet_update[OF idx] True by auto
    ultimately show ?thesis using r(2) by simp
  qed
qed

lemma IsSet_append_zeros: "IsSet (s @ replicate n 0) c \<longleftrightarrow> IsSet s c"
  by (auto simp: IsSet_iff nth_append)

lemma AddRange_Inr:
  assumes "from \<le> to"
  shows "\<exists>r. AddRange s from to = Inr r \<and>
             length r = max (to div 64 + 1) (length s * 64) \<and>
             (\<forall>c. IsSet r c \<longleftrightarrow> (from \<le> c \<and> c \<le> to) \<or> IsSet s c)"
proof -
  let ?n = "max (to div 64 + 1) (length s * 64)"
  have le: "length s \<le> ?n" by simp
  have cp: "copy_prefix (replicate ?n 0) (length s) s = Inr (s @ replicate (?n - length s) 0)"
    using le by (simp add: copy_prefix_def)
  have "to div 64 < length (s @ replicate (?n - length s) 0)" using le by simp
  from AddRange_loop_correct[OF this, of "from"]
  show ?thesis
    using assms cp le
    by (auto simp: AddRange_def bitsperword_def wordbytesize_def Let_def IsSet_append_zeros)
qed



text \<open>
  C3. The claim has the returned set \<open>max (to div 64 + 1) (len s)\<close> words long. The code
  takes the maximum of a word count and a bit count, \<open>max(to/bitsperword+1,
  uint(len(s))*bitsperword)\<close>: adding CPU 0 to the one-word set \<open>{0}\<close> returns 64
  words, where one word covers CPU 0 and the receiver is one word long.
\<close>

theorem AddRange_length_one_word:
  "AddRange [0] 0 0 = Inr (1 # replicate 63 0) \<and>
   length (1 # replicate 63 (0 :: 64 word)) = 64 \<and>
   max (0 div 64 + 1) (length [0 :: 64 word]) = 1"
  by (simp add: AddRange_loop.simps AddRange_def bitsperword_def wordbytesize_def Let_def
        copy_prefix_def setBitIndex_def setBitMask_def)

subsection \<open>Remove\<close>

text \<open>
  C7. On a non-empty canonical list, \<open>Remove\<close> returns the lowest CPU of the list and
  a remainder: the lowest range with its lower bound incremented when that range has
  more than one member, the list without the lowest range when it is a singleton; the
  remainder holds every CPU of the list but the removed one. \<open>[[1,3]]\<close> yields
  \<open>(1, [[2,3]])\<close>, \<open>[[5,5]]\<close> yields \<open>(5, [])\<close>, and the empty list panics.
\<close>

theorem Remove_lowest:
  "Remove [] = Inl EmptyList \<and>
   Remove [(1, 3)] = Inr (1, [(2, 3)]) \<and>
   Remove [(5, 5)] = Inr (5, []) \<and>
   (l \<noteq> [] \<and> canonical l \<longrightarrow>
     (\<exists>cpu rem. Remove l = Inr (cpu, rem) \<and>
        inList l cpu \<and> (\<forall>c. inList l c \<longrightarrow> cpu \<le> c) \<and>
        rem = (if fst (hd l) < snd (hd l) then (fst (hd l) + 1, snd (hd l)) # tl l else tl l) \<and>
        (\<forall>c. inList rem c \<longleftrightarrow> inList l c \<and> c \<noteq> cpu) \<and>
        canonical rem))"
proof -
  have gen: "\<exists>cpu rem. Remove l = Inr (cpu, rem) \<and>
        inList l cpu \<and> (\<forall>c. inList l c \<longrightarrow> cpu \<le> c) \<and>
        rem = (if fst (hd l) < snd (hd l) then (fst (hd l) + 1, snd (hd l)) # tl l else tl l) \<and>
        (\<forall>c. inList rem c \<longleftrightarrow> inList l c \<and> c \<noteq> cpu) \<and>
        canonical rem"
    if ne: "l \<noteq> []" and can: "canonical l"
  proof -
    from ne obtain r rs where l: "l = r # rs" by (cases l) auto
    have r: "fst r \<le> snd r" using can l by (cases rs) auto
    have low: "\<And>c. inList (r # rs) c \<Longrightarrow> fst r \<le> c"
      using canonical_lower can l by blast
    have tl_above: "\<And>c. inList rs c \<Longrightarrow> fst r < c"
    proof -
      fix c assume c: "inList rs c"
      then obtain r' rs' where rs: "rs = r' # rs'" by (cases rs) auto
      have "canonical rs" using can l canonical_tl by blast
      then have "fst r' \<le> c" using canonical_lower c rs by blast
      moreover have "snd r < fst r'" using can l rs by simp
      ultimately show "fst r < c" using r by linarith
    qed
    show ?thesis
    proof (cases "fst r < snd r")
      case True
      have c': "canonical ((fst r + 1, snd r) # rs)"
        using can l True by (cases rs) auto
      show ?thesis
        using True l low tl_above c' r
        by (auto simp: Remove_def Let_def)
    next
      case False
      then have eq: "fst r = snd r" using r by simp
      show ?thesis
        using False l low tl_above eq canonical_tl[of r rs] can
        by (auto simp: Remove_def Let_def)
    qed
  qed
  show ?thesis using gen by (simp add: Remove_def)
qed

theorem Remove_lowest_witness:
  "[(1, 3), (7, 9)] \<noteq> [] \<and> canonical [(1, 3), (7, 9)] \<and>
   Remove [(1, 3), (7, 9)] = Inr (1, [(2, 3), (7, 9)])"
  using Remove_lowest [of "[(1, 3), (7, 9)]"] by (simp add: Remove_def)

subsection \<open>Set.List: the inner loops\<close>

lemma step_wrap: "n mod 64 = 63 \<Longrightarrow> (n + 1) div 64 = n div 64 + 1 \<and> (n + 1) mod 64 = 0"
  for n :: nat
  using mod_Suc[of n 64] div_Suc[of n 64] by simp

lemma step_same: "n mod 64 \<noteq> 63 \<Longrightarrow> (n + 1) div 64 = n div 64 \<and> (n + 1) mod 64 = n mod 64 + 1"
  for n :: nat
  using mod_Suc[of n 64] div_Suc[of n 64] by (simp split: if_splits)

lemma mask_and: "(w AND 2 ^ (n mod 64) \<noteq> 0) = bit w (n mod 64)" for w :: "64 word"
  using bit_iff_and_push_bit_not_eq_0[of w "n mod 64"] by (simp add: push_bit_eq_mult)

lemma mask_and0: "(w AND 2 ^ (n mod 64) = 0) = (\<not> bit w (n mod 64))" for w :: "64 word"
  using mask_and[of w n] by blast

lemma mask_one: "((2::64 word) ^ (n mod 64) = 1) = (n mod 64 = 0)"
proof
  assume "(2::64 word) ^ (n mod 64) = 1"
  then have "bit ((2::64 word) ^ (n mod 64)) 0" by simp
  then show "n mod 64 = 0" by (simp add: bit_exp_iff)
qed simp

lemma mask_shift: "push_bit 1 ((2::64 word) ^ k) = 2 ^ (k + 1)"
  by (simp add: push_bit_eq_mult)

lemma mask_shift_zero: "(push_bit 1 ((2::64 word) ^ (n mod 64)) = 0) = (n mod 64 = 63)"
proof -
  have "((2::64 word) ^ (n mod 64 + 1) = 0) = (64 \<le> n mod 64 + 1)"
    using exp_eq_zero_iff[where 'a = 64, of "n mod 64 + 1"] by (simp del: power_Suc)
  moreover have "n mod 64 < 64" by simp
  ultimately show ?thesis unfolding mask_shift by linarith
qed

lemma mask_next: "n mod 64 \<noteq> 63 \<Longrightarrow> push_bit 1 ((2::64 word) ^ (n mod 64)) = 2 ^ ((n + 1) mod 64)"
  using step_same[of n] by (simp add: mask_shift)

lemma word_zero_iff: "w = 0 \<longleftrightarrow> (\<forall>k<64. \<not> bit w k)" for w :: "64 word"
proof
  assume "\<forall>k<64. \<not> bit w k"
  then show "w = 0" by (intro bit_word_eqI) simp
qed simp

lemma word_ones_iff: "w = NOT 0 \<longleftrightarrow> (\<forall>k<64. bit w k)" for w :: "64 word"
proof
  assume "\<forall>k<64. bit w k"
  then show "w = NOT 0" by (intro bit_word_eqI) simp
qed simp

lemma IsSet_bit: "n div 64 < length s \<Longrightarrow> IsSet s n = bit (s ! (n div 64)) (n mod 64)"
  by (auto simp: IsSet_iff) 

lemma IsSet_lt: "IsSet s c \<Longrightarrow> c < 64 * length s"
  by (auto simp: IsSet_iff)

lemma word_top: "n \<le> 64 * (n div 64) + 64" for n :: nat
  using div_mult_mod_eq[of n 64] mod_less_divisor[of 64 n] by linarith

lemma IsSet_and:
  "n div 64 < length s \<Longrightarrow> IsSet s n \<Longrightarrow> s ! (n div 64) AND 2 ^ (n mod 64) \<noteq> 0"
  using mask_and[of "s ! (n div 64)" n] IsSet_bit[of n s] by blast

lemma not_IsSet_and:
  "n div 64 < length s \<Longrightarrow> \<not> IsSet s n \<Longrightarrow> s ! (n div 64) AND 2 ^ (n mod 64) = 0"
  using mask_and[of "s ! (n div 64)" n] IsSet_bit[of n s] by blast

lemma scanForSet_found:
  assumes "n div 64 < length s" "IsSet s n"
  shows "scanForSet s n (n div 64) (2 ^ (n mod 64)) = Some (Inr (n, n div 64, 2 ^ (n mod 64)))"
proof -
  have c: "s ! (n div 64) AND 2 ^ (n mod 64) \<noteq> 0"
    using assms by (rule IsSet_and)
  show ?thesis using assms(1) c by (subst scanForSet.simps) simp
qed

lemma scanForSet_wrap:
  assumes "n div 64 < length s" "\<not> IsSet s n" "n mod 64 = 63"
  shows "scanForSet s n (n div 64) (2 ^ (n mod 64)) =
         Some (Inr (n + 1, (n + 1) div 64, 2 ^ ((n + 1) mod 64)))"
proof -
  have c: "s ! (n div 64) AND 2 ^ (n mod 64) = 0"
    using assms(1,2) by (rule not_IsSet_and)
  have z: "push_bit 1 ((2::64 word) ^ (n mod 64)) = 0"
    using assms(3) mask_shift_zero[of n] by blast
  have st: "(n + 1) div 64 = n div 64 + 1" "(n + 1) mod 64 = 0"
    using step_wrap[OF assms(3)] by auto
  have nl: "\<not> length s \<le> n div 64" using assms(1) by simp
  have "scanForSet s n (n div 64) (2 ^ (n mod 64)) = Some (Inr (n + 1, n div 64 + 1, 1))"
    by (subst scanForSet.simps) (simp only: nl c z if_True if_False simp_thms)
  then show ?thesis by (simp only: st power_0)
qed

lemma scanForSet_step:
  assumes "n div 64 < length s" "\<not> IsSet s n" "n mod 64 \<noteq> 63"
  shows "scanForSet s n (n div 64) (2 ^ (n mod 64)) =
         scanForSet s (n + 1) ((n + 1) div 64) (2 ^ ((n + 1) mod 64))"
proof -
  have c: "s ! (n div 64) AND 2 ^ (n mod 64) = 0"
    using assms(1,2) by (rule not_IsSet_and)
  have z: "push_bit 1 ((2::64 word) ^ (n mod 64)) \<noteq> 0"
    using assms(3) mask_shift_zero[of n] by blast
  have st: "(n + 1) div 64 = n div 64"
    using step_same[OF assms(3)] by auto
  have nl: "\<not> length s \<le> n div 64" using assms(1) by simp
  have "scanForSet s n (n div 64) (2 ^ (n mod 64)) =
        scanForSet s (n + 1) (n div 64) (push_bit 1 (2 ^ (n mod 64)))"
    by (subst scanForSet.simps) (simp only: nl c z if_True if_False simp_thms)
  then show ?thesis by (simp only: st mask_next[OF assms(3)])
qed

lemma all_from_step:
  assumes "P n" "\<forall>c. n + 1 \<le> c \<and> c < n' \<longrightarrow> P c"
  shows "\<forall>c::nat. n \<le> c \<and> c < n' \<longrightarrow> P c"
proof (intro allI impI)
  fix c :: nat
  assume c: "n \<le> c \<and> c < n'"
  show "P c"
  proof (cases "c = n")
    case True
    then show ?thesis using assms(1) by simp
  next
    case False
    then have "n + 1 \<le> c" using c by linarith
    then show ?thesis using assms(2) c by blast
  qed
qed

lemma only_n: "n \<le> c \<Longrightarrow> c < n + 1 \<Longrightarrow> c = n" for n :: nat
  by linarith

lemma scanForSet_spec:
  "n div 64 < length s \<Longrightarrow>
   \<exists>n'. scanForSet s n (n div 64) (2 ^ (n mod 64)) = Some (Inr (n', n' div 64, 2 ^ (n' mod 64))) \<and>
        n \<le> n' \<and> n' \<le> 64 * (n div 64) + 64 \<and>
        (\<forall>c. n \<le> c \<and> c < n' \<longrightarrow> \<not> IsSet s c) \<and>
        (n' < 64 * (n div 64) + 64 \<longrightarrow> IsSet s n')"
proof (induction "63 - n mod 64" arbitrary: n rule: less_induct)
  case less
  note idx = less.prems
  show ?case
  proof (cases "IsSet s n")
    case True
    show ?thesis
      using scanForSet_found[OF idx True] True word_top[of n]
      by (intro exI[of _ n]) auto
  next
    case False
    show ?thesis
    proof (cases "n mod 64 = 63")
      case True
      have "n + 1 = 64 * (n div 64) + 64"
        using True div_mult_mod_eq[of n 64] by linarith
      moreover have "\<forall>c. n \<le> c \<and> c < n + 1 \<longrightarrow> \<not> IsSet s c"
        using False only_n by blast
      ultimately show ?thesis
        using scanForSet_wrap[OF idx False True]
        by (intro exI[of _ "n + 1"]) simp
    next
      case nw: False
      from step_same[OF nw]
      have st: "(n + 1) div 64 = n div 64" "(n + 1) mod 64 = n mod 64 + 1" by auto
      have lt: "63 - (n + 1) mod 64 < 63 - n mod 64"
        using st nw mod_less_divisor[of 64 n] by linarith
      have idx': "(n + 1) div 64 < length s" using idx st by simp
      from less.hyps[OF lt idx'] st
      obtain n' where n': "scanForSet s (n + 1) ((n + 1) div 64) (2 ^ ((n + 1) mod 64)) =
            Some (Inr (n', n' div 64, 2 ^ (n' mod 64)))"
          "n + 1 \<le> n'" "n' \<le> 64 * (n div 64) + 64"
          "\<forall>c. n + 1 \<le> c \<and> c < n' \<longrightarrow> \<not> IsSet s c"
          "n' < 64 * (n div 64) + 64 \<longrightarrow> IsSet s n'"
        by auto
      have "\<forall>c. n \<le> c \<and> c < n' \<longrightarrow> \<not> IsSet s c"
        using all_from_step[of "\<lambda>c. \<not> IsSet s c" n n'] False n'(4) by blast
      then show ?thesis
        using n'(1,2,3,5) scanForSet_step[OF idx False nw]
        by (intro exI[of _ n']) simp
    qed
  qed
qed


lemma scanForUnset_found:
  assumes "n div 64 < length s" "\<not> IsSet s n"
  shows "scanForUnset s n (n div 64) (2 ^ (n mod 64)) =
         Some (Inr (FoundUnset, n, n div 64, 2 ^ (n mod 64)))"
proof -
  have c: "s ! (n div 64) AND 2 ^ (n mod 64) = 0"
    using assms by (rule not_IsSet_and)
  have nl: "\<not> length s \<le> n div 64" using assms(1) by simp
  show ?thesis
    by (subst scanForUnset.simps) (simp only: nl c if_True if_False simp_thms)
qed

lemma scanForUnset_wrap:
  assumes "n div 64 < length s" "IsSet s n" "n mod 64 = 63"
  shows "scanForUnset s n (n div 64) (2 ^ (n mod 64)) =
         Some (Inr (WordEnd, n + 1, (n + 1) div 64, 2 ^ ((n + 1) mod 64)))"
proof -
  have c: "s ! (n div 64) AND 2 ^ (n mod 64) \<noteq> 0"
    using assms(1,2) by (rule IsSet_and)
  have z: "push_bit 1 ((2::64 word) ^ (n mod 64)) = 0"
    using assms(3) mask_shift_zero[of n] by blast
  have st: "(n + 1) div 64 = n div 64 + 1" "(n + 1) mod 64 = 0"
    using step_wrap[OF assms(3)] by auto
  have nl: "\<not> length s \<le> n div 64" using assms(1) by simp
  have "scanForUnset s n (n div 64) (2 ^ (n mod 64)) =
        Some (Inr (WordEnd, n + 1, n div 64 + 1, 1))"
    by (subst scanForUnset.simps) (simp only: nl c z if_True if_False simp_thms)
  then show ?thesis by (simp only: st power_0)
qed

lemma scanForUnset_step:
  assumes "n div 64 < length s" "IsSet s n" "n mod 64 \<noteq> 63"
  shows "scanForUnset s n (n div 64) (2 ^ (n mod 64)) =
         scanForUnset s (n + 1) ((n + 1) div 64) (2 ^ ((n + 1) mod 64))"
proof -
  have c: "s ! (n div 64) AND 2 ^ (n mod 64) \<noteq> 0"
    using assms(1,2) by (rule IsSet_and)
  have z: "push_bit 1 ((2::64 word) ^ (n mod 64)) \<noteq> 0"
    using assms(3) mask_shift_zero[of n] by blast
  have st: "(n + 1) div 64 = n div 64"
    using step_same[OF assms(3)] by auto
  have nl: "\<not> length s \<le> n div 64" using assms(1) by simp
  have "scanForUnset s n (n div 64) (2 ^ (n mod 64)) =
        scanForUnset s (n + 1) (n div 64) (push_bit 1 (2 ^ (n mod 64)))"
    by (subst scanForUnset.simps) (simp only: nl c z if_True if_False simp_thms)
  then show ?thesis by (simp only: st mask_next[OF assms(3)])
qed

lemma scanForUnset_spec:
  "n div 64 < length s \<Longrightarrow>
   \<exists>e n'. scanForUnset s n (n div 64) (2 ^ (n mod 64)) =
             Some (Inr (e, n', n' div 64, 2 ^ (n' mod 64))) \<and>
        n \<le> n' \<and>
        (\<forall>c. n \<le> c \<and> c < n' \<longrightarrow> IsSet s c) \<and>
        (e = FoundUnset \<longrightarrow> \<not> IsSet s n' \<and> n' div 64 = n div 64) \<and>
        (e = WordEnd \<longrightarrow> n' = 64 * (n div 64) + 64)"
proof (induction "63 - n mod 64" arbitrary: n rule: less_induct)
  case less
  note idx = less.prems
  show ?case
  proof (cases "IsSet s n")
    case False
    show ?thesis
      using scanForUnset_found[OF idx False] False
      by (intro exI[of _ FoundUnset] exI[of _ n]) auto
  next
    case True
    show ?thesis
    proof (cases "n mod 64 = 63")
      case w: True
      have "n + 1 = 64 * (n div 64) + 64"
        using w div_mult_mod_eq[of n 64] by linarith
      moreover have "\<forall>c. n \<le> c \<and> c < n + 1 \<longrightarrow> IsSet s c"
        using True only_n by blast
      ultimately show ?thesis
        using scanForUnset_wrap[OF idx True w]
        by (intro exI[of _ WordEnd] exI[of _ "n + 1"]) simp
    next
      case nw: False
      from step_same[OF nw]
      have st: "(n + 1) div 64 = n div 64" "(n + 1) mod 64 = n mod 64 + 1" by auto
      have lt: "63 - (n + 1) mod 64 < 63 - n mod 64"
        using st nw mod_less_divisor[of 64 n] by linarith
      have idx': "(n + 1) div 64 < length s" using idx st by simp
      from less.hyps[OF lt idx'] st
      obtain e n' where n': "scanForUnset s (n + 1) ((n + 1) div 64) (2 ^ ((n + 1) mod 64)) =
            Some (Inr (e, n', n' div 64, 2 ^ (n' mod 64)))"
          "n + 1 \<le> n'"
          "\<forall>c. n + 1 \<le> c \<and> c < n' \<longrightarrow> IsSet s c"
          "e = FoundUnset \<longrightarrow> \<not> IsSet s n' \<and> n' div 64 = n div 64"
          "e = WordEnd \<longrightarrow> n' = 64 * (n div 64) + 64"
        by auto
      have "\<forall>c. n \<le> c \<and> c < n' \<longrightarrow> IsSet s c"
        using all_from_step[of "\<lambda>c. IsSet s c" n n'] True n'(3) by blast
      then show ?thesis
        using n'(1,2,4,5) scanForUnset_step[OF idx True nw]
        by (intro exI[of _ e] exI[of _ n']) simp
    qed
  qed
qed

lemma same_word_not_last:
  fixes n c :: nat
  assumes "n < c" "c div 64 = n div 64"
  shows "n mod 64 \<noteq> 63"
proof
  assume a: "n mod 64 = 63"
  have "n div 64 * 64 + 63 = n" using div_mult_mod_eq[of n 64] a by simp
  moreover have "c div 64 * 64 + c mod 64 = c" by simp
  moreover have "c mod 64 < 64" by simp
  ultimately show False using assms by linarith
qed

lemma findSet_found:
  assumes "n div 64 < length s" "IsSet s n"
  shows "findSet s n (n div 64) (2 ^ (n mod 64)) = Some (Inr (n, 2 ^ (n mod 64)))"
proof -
  have c: "s ! (n div 64) AND 2 ^ (n mod 64) \<noteq> 0"
    using assms by (rule IsSet_and)
  have nl: "\<not> length s \<le> n div 64" using assms(1) by simp
  show ?thesis
    by (subst findSet.simps) (simp only: nl c if_True if_False simp_thms)
qed

lemma findSet_step:
  assumes "n div 64 < length s" "\<not> IsSet s n" "n mod 64 \<noteq> 63"
  shows "findSet s n (n div 64) (2 ^ (n mod 64)) =
         findSet s (n + 1) ((n + 1) div 64) (2 ^ ((n + 1) mod 64))"
proof -
  have c: "s ! (n div 64) AND 2 ^ (n mod 64) = 0"
    using assms(1,2) by (rule not_IsSet_and)
  have st: "(n + 1) div 64 = n div 64"
    using step_same[OF assms(3)] by auto
  have nl: "\<not> length s \<le> n div 64" using assms(1) by simp
  have "findSet s n (n div 64) (2 ^ (n mod 64)) =
        findSet s (n + 1) (n div 64) (push_bit 1 (2 ^ (n mod 64)))"
    by (subst findSet.simps) (simp only: nl c if_True if_False simp_thms)
  then show ?thesis by (simp only: st mask_next[OF assms(3)])
qed

lemma findSet_spec:
  "n div 64 < length s \<Longrightarrow> n \<le> c \<Longrightarrow> c div 64 = n div 64 \<Longrightarrow> IsSet s c \<Longrightarrow>
   \<exists>n'. findSet s n (n div 64) (2 ^ (n mod 64)) = Some (Inr (n', 2 ^ (n' mod 64))) \<and>
        n \<le> n' \<and> n' div 64 = n div 64 \<and> IsSet s n' \<and>
        (\<forall>c'. n \<le> c' \<and> c' < n' \<longrightarrow> \<not> IsSet s c')"
proof (induction "c - n" arbitrary: n rule: less_induct)
  case less
  note idx = less.prems(1)
  show ?case
  proof (cases "IsSet s n")
    case True
    show ?thesis
      using findSet_found[OF idx True] True
      by (intro exI[of _ n]) auto
  next
    case False
    then have lt: "n < c" using less.prems(2,4) by (cases "c = n") auto
    have nw: "n mod 64 \<noteq> 63"
      using same_word_not_last[OF lt less.prems(3)] .
    from step_same[OF nw]
    have st: "(n + 1) div 64 = n div 64" by auto
    have idx': "(n + 1) div 64 < length s" using idx st by simp
    have m: "c - (n + 1) < c - n" using lt by linarith
    have le: "n + 1 \<le> c" using lt by linarith
    have sw: "c div 64 = (n + 1) div 64" using less.prems(3) st by simp
    from less.hyps[OF m idx' le sw less.prems(4)] st
    obtain n' where n': "findSet s (n + 1) ((n + 1) div 64) (2 ^ ((n + 1) mod 64)) =
          Some (Inr (n', 2 ^ (n' mod 64)))"
        "n + 1 \<le> n'" "n' div 64 = n div 64" "IsSet s n'"
        "\<forall>c'. n + 1 \<le> c' \<and> c' < n' \<longrightarrow> \<not> IsSet s c'"
      by auto
    have "\<forall>c'. n \<le> c' \<and> c' < n' \<longrightarrow> \<not> IsSet s c'"
      using all_from_step[of "\<lambda>c. \<not> IsSet s c" n n'] False n'(5) by blast
    then show ?thesis
      using n'(1,2,3,4) findSet_step[OF idx False nw]
      by (intro exI[of _ n']) simp
  qed
qed

lemma findUnset_found:
  assumes "n div 64 < length s" "\<not> IsSet s n"
  shows "findUnset s n (n div 64) (2 ^ (n mod 64)) = Some (Inr (n, 2 ^ (n mod 64)))"
proof -
  have c: "s ! (n div 64) AND 2 ^ (n mod 64) = 0"
    using assms by (rule not_IsSet_and)
  have nl: "\<not> length s \<le> n div 64" using assms(1) by simp
  show ?thesis
    by (subst findUnset.simps) (simp only: nl c if_True if_False simp_thms)
qed

lemma findUnset_step:
  assumes "n div 64 < length s" "IsSet s n" "n mod 64 \<noteq> 63"
  shows "findUnset s n (n div 64) (2 ^ (n mod 64)) =
         findUnset s (n + 1) ((n + 1) div 64) (2 ^ ((n + 1) mod 64))"
proof -
  have c: "s ! (n div 64) AND 2 ^ (n mod 64) \<noteq> 0"
    using assms(1,2) by (rule IsSet_and)
  have st: "(n + 1) div 64 = n div 64"
    using step_same[OF assms(3)] by auto
  have nl: "\<not> length s \<le> n div 64" using assms(1) by simp
  have "findUnset s n (n div 64) (2 ^ (n mod 64)) =
        findUnset s (n + 1) (n div 64) (push_bit 1 (2 ^ (n mod 64)))"
    by (subst findUnset.simps) (simp only: nl c if_True if_False simp_thms)
  then show ?thesis by (simp only: st mask_next[OF assms(3)])
qed

lemma findUnset_spec:
  "n div 64 < length s \<Longrightarrow> n \<le> c \<Longrightarrow> c div 64 = n div 64 \<Longrightarrow> \<not> IsSet s c \<Longrightarrow>
   \<exists>n'. findUnset s n (n div 64) (2 ^ (n mod 64)) = Some (Inr (n', 2 ^ (n' mod 64))) \<and>
        n \<le> n' \<and> n' div 64 = n div 64 \<and> \<not> IsSet s n' \<and>
        (\<forall>c'. n \<le> c' \<and> c' < n' \<longrightarrow> IsSet s c')"
proof (induction "c - n" arbitrary: n rule: less_induct)
  case less
  note idx = less.prems(1)
  show ?case
  proof (cases "IsSet s n")
    case False
    show ?thesis
      using findUnset_found[OF idx False] False
      by (intro exI[of _ n]) auto
  next
    case True
    then have lt: "n < c" using less.prems(2,4) by (cases "c = n") auto
    have nw: "n mod 64 \<noteq> 63"
      using same_word_not_last[OF lt less.prems(3)] .
    from step_same[OF nw]
    have st: "(n + 1) div 64 = n div 64" by auto
    have idx': "(n + 1) div 64 < length s" using idx st by simp
    have m: "c - (n + 1) < c - n" using lt by linarith
    have le: "n + 1 \<le> c" using lt by linarith
    have sw: "c div 64 = (n + 1) div 64" using less.prems(3) st by simp
    from less.hyps[OF m idx' le sw less.prems(4)] st
    obtain n' where n': "findUnset s (n + 1) ((n + 1) div 64) (2 ^ ((n + 1) mod 64)) =
          Some (Inr (n', 2 ^ (n' mod 64)))"
        "n + 1 \<le> n'" "n' div 64 = n div 64" "\<not> IsSet s n'"
        "\<forall>c'. n + 1 \<le> c' \<and> c' < n' \<longrightarrow> IsSet s c'"
      by auto
    have "\<forall>c'. n \<le> c' \<and> c' < n' \<longrightarrow> IsSet s c'"
      using all_from_step[of "\<lambda>c. IsSet s c" n n'] True n'(5) by blast
    then show ?thesis
      using n'(1,2,3,4) findUnset_step[OF idx True nw]
      by (intro exI[of _ n']) simp
  qed
qed


lemma in_word:
  fixes n c :: nat
  assumes "n mod 64 = 0" "n \<le> c" "c < n + 64"
  shows "c div 64 = n div 64"
proof -
  have n: "n div 64 * 64 = n" using div_mult_mod_eq[of n 64] assms(1) by simp
  have "64 * (n div 64) \<le> c" using n assms(2) by linarith
  moreover have "c < 64 * Suc (n div 64)" using n assms(3) by simp
  ultimately show ?thesis by (rule div_nat_eqI)
qed

lemma next_word:
  fixes n :: nat
  shows "(n + 64) div 64 = n div 64 + 1 \<and> (n + 64) mod 64 = n mod 64"
  by simp

lemma zero_word_no_member:
  "s ! (c div 64) = 0 \<Longrightarrow> \<not> IsSet s c"
  by (simp add: IsSet_iff)

lemma ones_word_member:
  "c div 64 < length s \<Longrightarrow> s ! (c div 64) = NOT 0 \<Longrightarrow> IsSet s c"
  by (simp add: IsSet_iff less_mult_imp_div_less div_less_iff_less_mult)

lemma skipZeroWords_spec:
  "n mod 64 = 0 \<Longrightarrow> n \<le> 64 * length s \<Longrightarrow>
   \<exists>n'. skipZeroWords s n (n div 64) = (n', n' div 64) \<and>
        n \<le> n' \<and> n' \<le> 64 * length s \<and> n' mod 64 = 0 \<and>
        (\<forall>c. n \<le> c \<and> c < n' \<longrightarrow> \<not> IsSet s c) \<and>
        (n' div 64 < length s \<longrightarrow> s ! (n' div 64) \<noteq> 0)"
proof (induction "length s - n div 64" arbitrary: n rule: less_induct)
  case less
  show ?case
  proof (cases "n div 64 < length s \<and> s ! (n div 64) = 0")
    case False
    then have "skipZeroWords s n (n div 64) = (n, n div 64)"
      by (subst skipZeroWords.simps) auto
    then show ?thesis
      using False less.prems by (intro exI[of _ n]) auto
  next
    case True
    have m: "length s - (n + 64) div 64 < length s - n div 64"
      using True next_word[of n] by linarith
    have md: "(n + 64) mod 64 = 0" using less.prems(1) by simp
    have nn: "n div 64 * 64 = n" using div_mult_mod_eq[of n 64] less.prems(1) by simp
    have le: "n + 64 \<le> 64 * length s"
      using True nn by linarith
    from less.hyps[OF m md le]
    obtain n' where n': "skipZeroWords s (n + 64) ((n + 64) div 64) = (n', n' div 64)"
        "n + 64 \<le> n'" "n' \<le> 64 * length s" "n' mod 64 = 0"
        "\<forall>c. n + 64 \<le> c \<and> c < n' \<longrightarrow> \<not> IsSet s c"
        "n' div 64 < length s \<longrightarrow> s ! (n' div 64) \<noteq> 0"
      by auto
    have "skipZeroWords s n (n div 64) = skipZeroWords s (n + 64) (n div 64 + 1)"
      using True by (subst skipZeroWords.simps) simp
    then have eq: "skipZeroWords s n (n div 64) = (n', n' div 64)"
      using n'(1) next_word[of n] by simp
    have none: "\<forall>c. n \<le> c \<and> c < n' \<longrightarrow> \<not> IsSet s c"
    proof (intro allI impI)
      fix c assume c: "n \<le> c \<and> c < n'"
      show "\<not> IsSet s c"
      proof (cases "c < n + 64")
        case t: True
        have "c div 64 = n div 64" using in_word[OF less.prems(1)] c t by blast
        then show ?thesis using True zero_word_no_member by simp
      next
        case False
        then show ?thesis using n'(5) c by simp
      qed
    qed
    show ?thesis
      using eq n'(2,3,4,6) none by (intro exI[of _ n']) simp
  qed
qed

lemma skipZeroWords_keep:
  assumes "n div 64 < length s" "IsSet s n"
  shows "skipZeroWords s n (n div 64) = (n, n div 64)"
proof -
  have "s ! (n div 64) \<noteq> 0" using assms zero_word_no_member by blast
  then show ?thesis by (subst skipZeroWords.simps) simp
qed

lemma skipOnesWords_spec:
  "n mod 64 = 0 \<Longrightarrow> n \<le> 64 * length s \<Longrightarrow>
   \<exists>n'. skipOnesWords s n (n div 64) = (n', n' div 64) \<and>
        n \<le> n' \<and> n' \<le> 64 * length s \<and> n' mod 64 = 0 \<and>
        (\<forall>c. n \<le> c \<and> c < n' \<longrightarrow> IsSet s c) \<and>
        (n' div 64 < length s \<longrightarrow> s ! (n' div 64) \<noteq> NOT 0)"
proof (induction "length s - n div 64" arbitrary: n rule: less_induct)
  case less
  show ?case
  proof (cases "n div 64 < length s \<and> s ! (n div 64) = NOT 0")
    case False
    then have "skipOnesWords s n (n div 64) = (n, n div 64)"
      by (subst skipOnesWords.simps) auto
    then show ?thesis
      using False less.prems by (intro exI[of _ n]) auto
  next
    case True
    have m: "length s - (n + 64) div 64 < length s - n div 64"
      using True next_word[of n] by linarith
    have md: "(n + 64) mod 64 = 0" using less.prems(1) by simp
    have nn: "n div 64 * 64 = n" using div_mult_mod_eq[of n 64] less.prems(1) by simp
    have le: "n + 64 \<le> 64 * length s"
      using True nn by linarith
    from less.hyps[OF m md le]
    obtain n' where n': "skipOnesWords s (n + 64) ((n + 64) div 64) = (n', n' div 64)"
        "n + 64 \<le> n'" "n' \<le> 64 * length s" "n' mod 64 = 0"
        "\<forall>c. n + 64 \<le> c \<and> c < n' \<longrightarrow> IsSet s c"
        "n' div 64 < length s \<longrightarrow> s ! (n' div 64) \<noteq> NOT 0"
      by auto
    have "skipOnesWords s n (n div 64) = skipOnesWords s (n + 64) (n div 64 + 1)"
      using True by (subst skipOnesWords.simps) simp
    then have eq: "skipOnesWords s n (n div 64) = (n', n' div 64)"
      using n'(1) next_word[of n] by simp
    have all: "\<forall>c. n \<le> c \<and> c < n' \<longrightarrow> IsSet s c"
    proof (intro allI impI)
      fix c assume c: "n \<le> c \<and> c < n'"
      show "IsSet s c"
      proof (cases "c < n + 64")
        case t: True
        have "c div 64 = n div 64" using in_word[OF less.prems(1)] c t by blast
        then show ?thesis using True ones_word_member[of c s] by simp
      next
        case False
        then show ?thesis using n'(5) c by simp
      qed
    qed
    show ?thesis
      using eq n'(2,3,4,6) all by (intro exI[of _ n']) simp
  qed
qed

lemma word_offset:
  fixes n k :: nat
  assumes "n mod 64 = 0" "k < 64"
  shows "(n + k) mod 64 = k"
proof -
  have e: "n + k = k + 64 * (n div 64)"
    using div_mult_mod_eq[of n 64] assms(1) by simp
  show ?thesis unfolding e using assms(2) by simp
qed

lemma nonzero_word_member:
  assumes "n mod 64 = 0" "n div 64 < length s" "s ! (n div 64) \<noteq> 0"
  shows "\<exists>c. n \<le> c \<and> c div 64 = n div 64 \<and> IsSet s c"
proof -
  from assms(3) obtain k where k: "k < 64" "bit (s ! (n div 64)) k"
    using word_zero_iff by blast
  have d: "(n + k) div 64 = n div 64" using in_word[OF assms(1), of "n + k"] k(1) by simp
  have "(n + k) mod 64 = k" using word_offset[OF assms(1) k(1)] .
  then have "IsSet s (n + k)" using d k(2) assms(2) IsSet_bit[of "n + k" s] by simp
  then show ?thesis using d by (intro exI[of _ "n + k"]) simp
qed

lemma nonones_word_nonmember:
  assumes "n mod 64 = 0" "n div 64 < length s" "s ! (n div 64) \<noteq> NOT 0"
  shows "\<exists>c. n \<le> c \<and> c div 64 = n div 64 \<and> \<not> IsSet s c"
proof -
  from assms(3) obtain k where k: "k < 64" "\<not> bit (s ! (n div 64)) k"
    using word_ones_iff by blast
  have d: "(n + k) div 64 = n div 64" using in_word[OF assms(1), of "n + k"] k(1) by simp
  have "(n + k) mod 64 = k" using word_offset[OF assms(1) k(1)] .
  then have "\<not> IsSet s (n + k)" using d k(2) assms(2) IsSet_bit[of "n + k" s] by simp
  then show ?thesis using d by (intro exI[of _ "n + k"]) simp
qed


lemma separated_bump:
  assumes "separated m l" "\<forall>c. inList l c \<longrightarrow> IsSet s c" "\<not> IsSet s m"
  shows "separated (m + 1) l"
proof (cases l)
  case Nil
  then show ?thesis by simp
next
  case (Cons r rs)
  then have "inList l (fst r)" using assms(1) by simp
  then have "fst r \<noteq> m" using assms(2,3) by blast
  then show ?thesis using assms(1) Cons by simp
qed

lemma close_range:
  assumes "n \<le> n3" "n3 < m"
    and none: "\<forall>c. n \<le> c \<and> c < n3 \<longrightarrow> \<not> IsSet s c"
    and all: "\<forall>c. n3 \<le> c \<and> c < m \<longrightarrow> IsSet s c"
    and m: "\<not> IsSet s m"
    and sep: "separated m l"
    and cov: "\<forall>c. inList l c \<longleftrightarrow> m \<le> c \<and> IsSet s c"
  shows "separated n ((n3, m - 1) # l) \<and>
         (\<forall>c. inList ((n3, m - 1) # l) c \<longleftrightarrow> n \<le> c \<and> IsSet s c)"
proof
  have "separated (m + 1) l" using separated_bump[OF sep _ m] cov by blast
  moreover have "m - 1 + 2 = m + 1" using assms(2) by linarith
  ultimately show "separated n ((n3, m - 1) # l)" using assms(1,2) by simp
next
  show "\<forall>c. inList ((n3, m - 1) # l) c \<longleftrightarrow> n \<le> c \<and> IsSet s c"
  proof
    fix c
    show "inList ((n3, m - 1) # l) c \<longleftrightarrow> n \<le> c \<and> IsSet s c"
    proof (cases "c < n3")
      case True
      then show ?thesis using none cov assms(1,2) by auto
    next
      case False
      show ?thesis
      proof (cases "c < m")
        case True
        then have "IsSet s c" using all False by simp
        moreover have "n3 \<le> c \<and> c \<le> m - 1" using True False by linarith
        ultimately show ?thesis using assms(1) by auto
      next
        case nm: False
        then have "\<not> (n3 \<le> c \<and> c \<le> m - 1)" using assms(2) by linarith
        moreover have "n \<le> c" using nm assms(1,2) by linarith
        ultimately show ?thesis using cov nm by auto
      qed
    qed
  qed
qed

lemma last_range:
  assumes "n \<le> n3" "n3 < m" "m = 64 * length s"
    and none: "\<forall>c. n \<le> c \<and> c < n3 \<longrightarrow> \<not> IsSet s c"
    and all: "\<forall>c. n3 \<le> c \<and> c < m \<longrightarrow> IsSet s c"
  shows "separated n [(n3, m - 1)] \<and>
         (\<forall>c. inList [(n3, m - 1)] c \<longleftrightarrow> n \<le> c \<and> IsSet s c)"
proof
  show "separated n [(n3, m - 1)]" using assms(1,2) by simp
next
  show "\<forall>c. inList [(n3, m - 1)] c \<longleftrightarrow> n \<le> c \<and> IsSet s c"
  proof
    fix c
    show "inList [(n3, m - 1)] c \<longleftrightarrow> n \<le> c \<and> IsSet s c"
    proof (cases "c < n3")
      case True
      then show ?thesis using none by auto
    next
      case False
      show ?thesis
      proof (cases "c < m")
        case True
        then have "IsSet s c" using all False by simp
        moreover have "n3 \<le> c \<and> c \<le> m - 1" using True False by linarith
        ultimately show ?thesis using assms(1) by auto
      next
        case nm: False
        then have "\<not> (n3 \<le> c \<and> c \<le> m - 1)" using assms(2) by linarith
        moreover have "\<not> IsSet s c" using nm assms(3) IsSet_lt[of s c] by auto
        ultimately show ?thesis by auto
      qed
    qed
  qed
qed

lemma div_lt_len: "n < 64 * length s \<Longrightarrow> n div 64 < length s"
proof (rule less_mult_imp_div_less)
  assume "n < 64 * length s"
  then show "n < length s * 64" by linarith
qed

lemma find_start_scan:
  assumes "n \<le> 64 * length s"
  shows "\<exists>n1. (if (2::64 word) ^ (n mod 64) \<noteq> 1 then scanForSet s n (n div 64) (2 ^ (n mod 64))
      else Some (Inr (n, n div 64, 2 ^ (n mod 64)))) =
       Some (Inr (n1, n1 div 64, 2 ^ (n1 mod 64))) \<and>
     n \<le> n1 \<and> n1 \<le> 64 * length s \<and>
     (\<forall>c. n \<le> c \<and> c < n1 \<longrightarrow> \<not> IsSet s c) \<and>
     (n1 mod 64 \<noteq> 0 \<longrightarrow> IsSet s n1)"
proof (cases "n mod 64 = 0")
  case True
  then have one: "(2::64 word) ^ (n mod 64) = 1" by simp
  have eq: "(if (2::64 word) ^ (n mod 64) \<noteq> 1 then scanForSet s n (n div 64) (2 ^ (n mod 64))
      else Some (Inr (n, n div 64, 2 ^ (n mod 64)))) = Some (Inr (n, n div 64, 2 ^ (n mod 64)))"
    by (simp only: one simp_thms if_False)
  have no: "\<forall>c. n \<le> c \<and> c < n \<longrightarrow> \<not> IsSet s c" by auto
  show ?thesis
    using eq no True assms by (intro exI[of _ n] conjI) simp_all
next
  case False
  then have m: "(2::64 word) ^ (n mod 64) \<noteq> 1" by (simp only: mask_one not_False_eq_True)
  have "n \<noteq> 64 * length s" using False by auto
  then have "n < 64 * length s" using assms by linarith
  then have idx: "n div 64 < length s" by (rule div_lt_len)
  from scanForSet_spec[OF idx]
  obtain n1 where n1: "scanForSet s n (n div 64) (2 ^ (n mod 64)) =
        Some (Inr (n1, n1 div 64, 2 ^ (n1 mod 64)))"
      "n \<le> n1" "n1 \<le> 64 * (n div 64) + 64"
      "\<forall>c. n \<le> c \<and> c < n1 \<longrightarrow> \<not> IsSet s c"
      "n1 < 64 * (n div 64) + 64 \<longrightarrow> IsSet s n1"
    by blast
  have le: "n1 \<le> 64 * length s" using n1(3) idx by linarith
  have mem: "n1 mod 64 \<noteq> 0 \<longrightarrow> IsSet s n1"
  proof
    assume "n1 mod 64 \<noteq> 0"
    then have "n1 \<noteq> 64 * (n div 64) + 64" by auto
    then show "IsSet s n1" using n1(3,5) by linarith
  qed
  have eq: "(if (2::64 word) ^ (n mod 64) \<noteq> 1 then scanForSet s n (n div 64) (2 ^ (n mod 64))
      else Some (Inr (n, n div 64, 2 ^ (n mod 64)))) = Some (Inr (n1, n1 div 64, 2 ^ (n1 mod 64)))"
    using n1(1) by (simp only: m simp_thms if_True)
  show ?thesis using eq n1(2,4) le mem by (intro exI[of _ n1] conjI)
qed


lemma find_start_skip:
  assumes "n1 \<le> 64 * length s" "n1 mod 64 \<noteq> 0 \<longrightarrow> IsSet s n1"
  shows "\<exists>n2. skipZeroWords s n1 (n1 div 64) = (n2, n2 div 64) \<and>
     n1 \<le> n2 \<and> n2 \<le> 64 * length s \<and> n2 mod 64 = n1 mod 64 \<and>
     (\<forall>c. n1 \<le> c \<and> c < n2 \<longrightarrow> \<not> IsSet s c) \<and>
     (n2 div 64 < length s \<longrightarrow> (\<exists>c. n2 \<le> c \<and> c div 64 = n2 div 64 \<and> IsSet s c))"
proof (cases "n1 mod 64 = 0")
  case True
  from skipZeroWords_spec[OF True assms(1)]
  obtain n2 where n2: "skipZeroWords s n1 (n1 div 64) = (n2, n2 div 64)"
      "n1 \<le> n2" "n2 \<le> 64 * length s" "n2 mod 64 = 0"
      "\<forall>c. n1 \<le> c \<and> c < n2 \<longrightarrow> \<not> IsSet s c"
      "n2 div 64 < length s \<longrightarrow> s ! (n2 div 64) \<noteq> 0"
    by (elim exE conjE) (rule that)
  have ex: "n2 div 64 < length s \<longrightarrow> (\<exists>c. n2 \<le> c \<and> c div 64 = n2 div 64 \<and> IsSet s c)"
    using nonzero_word_member[OF n2(4)] n2(6) by blast
  have md: "n2 mod 64 = n1 mod 64" using n2(4) True by simp
  show ?thesis using n2(1,2,3,5) md ex by (intro exI[of _ n2] conjI)
next
  case False
  then have mem: "IsSet s n1" using assms(2) by blast
  then have "n1 < 64 * length s" by (rule IsSet_lt)
  then have idx: "n1 div 64 < length s" by (rule div_lt_len)
  have ex: "n1 div 64 < length s \<longrightarrow> (\<exists>c. n1 \<le> c \<and> c div 64 = n1 div 64 \<and> IsSet s c)"
    using mem by (intro impI exI[of _ n1]) simp
  have no: "\<forall>c. n1 \<le> c \<and> c < n1 \<longrightarrow> \<not> IsSet s c" by auto
  show ?thesis
    using skipZeroWords_keep[OF idx mem] ex no assms(1)
    by (intro exI[of _ n1] conjI) simp_all
qed

lemma none_join:
  fixes n :: nat
  assumes "\<forall>c. n \<le> c \<and> c < n1 \<longrightarrow> P c" "\<forall>c. n1 \<le> c \<and> c < n2 \<longrightarrow> P c"
  shows "\<forall>c. n \<le> c \<and> c < n2 \<longrightarrow> P c"
proof (intro allI impI)
  fix c assume c: "n \<le> c \<and> c < n2"
  show "P c"
  proof (cases "c < n1")
    case True
    then show ?thesis using assms(1) c by blast
  next
    case False
    then have "n1 \<le> c" by simp
    then show ?thesis using assms(2) c by blast
  qed
qed

lemma find_start:
  assumes "n \<le> 64 * length s"
  shows "\<exists>n1 n2.
     (if (2::64 word) ^ (n mod 64) \<noteq> 1 then scanForSet s n (n div 64) (2 ^ (n mod 64))
      else Some (Inr (n, n div 64, 2 ^ (n mod 64)))) =
       Some (Inr (n1, n1 div 64, 2 ^ (n1 mod 64))) \<and>
     skipZeroWords s n1 (n1 div 64) = (n2, n2 div 64) \<and>
     n \<le> n2 \<and> n2 \<le> 64 * length s \<and> n2 mod 64 = n1 mod 64 \<and>
     (\<forall>c. n \<le> c \<and> c < n2 \<longrightarrow> \<not> IsSet s c) \<and>
     (n2 div 64 < length s \<longrightarrow> (\<exists>c. n2 \<le> c \<and> c div 64 = n2 div 64 \<and> IsSet s c))"
proof -
  from find_start_scan[OF assms]
  obtain n1 where n1: "(if (2::64 word) ^ (n mod 64) \<noteq> 1 then scanForSet s n (n div 64) (2 ^ (n mod 64))
      else Some (Inr (n, n div 64, 2 ^ (n mod 64)))) =
       Some (Inr (n1, n1 div 64, 2 ^ (n1 mod 64)))"
     "n \<le> n1" "n1 \<le> 64 * length s"
     "\<forall>c. n \<le> c \<and> c < n1 \<longrightarrow> \<not> IsSet s c"
     "n1 mod 64 \<noteq> 0 \<longrightarrow> IsSet s n1"
    by (elim exE conjE) (rule that)
  from find_start_skip[OF n1(3,5)]
  obtain n2 where n2: "skipZeroWords s n1 (n1 div 64) = (n2, n2 div 64)"
     "n1 \<le> n2" "n2 \<le> 64 * length s" "n2 mod 64 = n1 mod 64"
     "\<forall>c. n1 \<le> c \<and> c < n2 \<longrightarrow> \<not> IsSet s c"
     "n2 div 64 < length s \<longrightarrow> (\<exists>c. n2 \<le> c \<and> c div 64 = n2 div 64 \<and> IsSet s c)"
    by (elim exE conjE) (rule that)
  have none: "\<forall>c. n \<le> c \<and> c < n2 \<longrightarrow> \<not> IsSet s c"
    using none_join[OF n1(4) n2(5)] .
  have le: "n \<le> n2" using n1(2) n2(2) by linarith
  show ?thesis
    using n1(1) n2(1,3,4,6) none le
    by (intro exI[of _ n1] exI[of _ n2] conjI)
qed


lemma advance:
  "(if push_bit 1 ((2::64 word) ^ (n mod 64)) = 0 then (n div 64 + 1, 1::64 word)
    else (n div 64, push_bit 1 ((2::64 word) ^ (n mod 64)))) =
   ((n + 1) div 64, (2::64 word) ^ ((n + 1) mod 64))"
proof (cases "n mod 64 = 63")
  case True
  have z: "push_bit 1 ((2::64 word) ^ (n mod 64)) = 0"
    using True mask_shift_zero[of n] by blast
  have st: "(n + 1) div 64 = n div 64 + 1" "(n + 1) mod 64 = 0"
    using step_wrap[OF True] by auto
  show ?thesis by (simp only: z st if_True power_0 simp_thms)
next
  case False
  have z: "push_bit 1 ((2::64 word) ^ (n mod 64)) \<noteq> 0"
    using False mask_shift_zero[of n] by blast
  have z': "(2::64 word) ^ ((n + 1) mod 64) \<noteq> 0"
    using z unfolding mask_next[OF False] .
  have st: "(n + 1) div 64 = n div 64"
    using step_same[OF False] by auto
  show ?thesis by (simp only: mask_next[OF False] z' st if_False simp_thms)
qed

lemma find_end:
  assumes "IsSet s n3"
  shows "\<exists>e n5.
     (if (2::64 word) ^ ((n3 + 1) mod 64) \<noteq> 1
      then scanForUnset s (n3 + 1) ((n3 + 1) div 64) (2 ^ ((n3 + 1) mod 64))
      else Some (Inr (WordEnd, n3 + 1, (n3 + 1) div 64, 2 ^ ((n3 + 1) mod 64)))) =
       Some (Inr (e, n5, n5 div 64, 2 ^ (n5 mod 64))) \<and>
     n3 < n5 \<and> n5 \<le> 64 * length s \<and>
     (\<forall>c. n3 \<le> c \<and> c < n5 \<longrightarrow> IsSet s c) \<and>
     (e = FoundUnset \<longrightarrow> \<not> IsSet s n5) \<and>
     (e = WordEnd \<longrightarrow> n5 mod 64 = 0)"
proof (cases "(n3 + 1) mod 64 = 0")
  case True
  then have one: "(2::64 word) ^ ((n3 + 1) mod 64) = 1" by simp
  have eq: "(if (2::64 word) ^ ((n3 + 1) mod 64) \<noteq> 1
      then scanForUnset s (n3 + 1) ((n3 + 1) div 64) (2 ^ ((n3 + 1) mod 64))
      else Some (Inr (WordEnd, n3 + 1, (n3 + 1) div 64, 2 ^ ((n3 + 1) mod 64)))) =
       Some (Inr (WordEnd, n3 + 1, (n3 + 1) div 64, 2 ^ ((n3 + 1) mod 64)))"
    by (simp only: one simp_thms if_False)
  have lt: "n3 < n3 + 1" by simp
  have le: "n3 + 1 \<le> 64 * length s" using IsSet_lt[OF assms] by linarith
  have all: "\<forall>c. n3 \<le> c \<and> c < n3 + 1 \<longrightarrow> IsSet s c"
    using assms only_n by blast
  have f: "WordEnd = FoundUnset \<longrightarrow> \<not> IsSet s (n3 + 1)" by simp
  have w: "WordEnd = WordEnd \<longrightarrow> (n3 + 1) mod 64 = 0" using True by simp
  show ?thesis
    using eq lt le all f w by (intro exI[of _ WordEnd] exI[of _ "n3 + 1"] conjI)
next
  case False
  then have m: "(2::64 word) ^ ((n3 + 1) mod 64) \<noteq> 1"
    by (simp only: mask_one not_False_eq_True)
  have w3: "n3 mod 64 \<noteq> 63"
  proof
    assume "n3 mod 64 = 63"
    from step_wrap[OF this] show False using False by simp
  qed
  have d: "(n3 + 1) div 64 = n3 div 64" using step_same[OF w3] by simp
  have idx3: "n3 div 64 < length s" using div_lt_len[OF IsSet_lt[OF assms]] .
  have idx: "(n3 + 1) div 64 < length s" using idx3 d by simp
  from scanForUnset_spec[OF idx]
  obtain e n5 where n5: "scanForUnset s (n3 + 1) ((n3 + 1) div 64) (2 ^ ((n3 + 1) mod 64)) =
             Some (Inr (e, n5, n5 div 64, 2 ^ (n5 mod 64)))"
        "n3 + 1 \<le> n5"
        "\<forall>c. n3 + 1 \<le> c \<and> c < n5 \<longrightarrow> IsSet s c"
        "e = FoundUnset \<longrightarrow> \<not> IsSet s n5 \<and> n5 div 64 = (n3 + 1) div 64"
        "e = WordEnd \<longrightarrow> n5 = 64 * ((n3 + 1) div 64) + 64"
    by (elim exE conjE) (rule that)
  have eq: "(if (2::64 word) ^ ((n3 + 1) mod 64) \<noteq> 1
      then scanForUnset s (n3 + 1) ((n3 + 1) div 64) (2 ^ ((n3 + 1) mod 64))
      else Some (Inr (WordEnd, n3 + 1, (n3 + 1) div 64, 2 ^ ((n3 + 1) mod 64)))) =
       Some (Inr (e, n5, n5 div 64, 2 ^ (n5 mod 64)))"
    using n5(1) by (simp only: m simp_thms if_True)
  have lt: "n3 < n5" using n5(2) by linarith
  have le: "n5 \<le> 64 * length s"
  proof (cases e)
    case FoundUnset
    then have "n5 div 64 < length s" using n5(4) idx by simp
    then have "64 * (n5 div 64) + 64 \<le> 64 * length s" by linarith
    then show ?thesis using word_top[of n5] by linarith
  next
    case WordEnd
    then have "n5 = 64 * ((n3 + 1) div 64) + 64" using n5(5) by simp
    then show ?thesis using idx by linarith
  qed
  have all: "\<forall>c. n3 \<le> c \<and> c < n5 \<longrightarrow> IsSet s c"
    using all_from_step[of "\<lambda>c. IsSet s c" n3 n5] assms n5(3) by blast
  have f: "e = FoundUnset \<longrightarrow> \<not> IsSet s n5" using n5(4) by blast
  have w: "e = WordEnd \<longrightarrow> n5 mod 64 = 0" using n5(5) by auto
  show ?thesis
    using eq lt le all f w by (intro exI[of _ e] exI[of _ n5] conjI)
qed

lemma find_end_skip:
  assumes "n5 mod 64 = 0" "n5 \<le> 64 * length s"
  shows "\<exists>n6. skipOnesWords s n5 (n5 div 64) = (n6, n6 div 64) \<and>
     n5 \<le> n6 \<and> n6 \<le> 64 * length s \<and>
     (\<forall>c. n5 \<le> c \<and> c < n6 \<longrightarrow> IsSet s c) \<and>
     (\<not> n6 div 64 < length s \<longrightarrow> n6 = 64 * length s) \<and>
     (n6 div 64 < length s \<longrightarrow>
        (\<exists>n7. findUnset s n6 (n6 div 64) (2 ^ (n5 mod 64)) = Some (Inr (n7, 2 ^ (n7 mod 64))) \<and>
           n6 \<le> n7 \<and> n7 div 64 = n6 div 64 \<and> \<not> IsSet s n7 \<and>
           (\<forall>c. n6 \<le> c \<and> c < n7 \<longrightarrow> IsSet s c)))"
proof -
  from skipOnesWords_spec[OF assms]
  obtain n6 where n6: "skipOnesWords s n5 (n5 div 64) = (n6, n6 div 64)"
      "n5 \<le> n6" "n6 \<le> 64 * length s" "n6 mod 64 = 0"
      "\<forall>c. n5 \<le> c \<and> c < n6 \<longrightarrow> IsSet s c"
      "n6 div 64 < length s \<longrightarrow> s ! (n6 div 64) \<noteq> NOT 0"
    by (elim exE conjE) (rule that)
  have full: "\<not> n6 div 64 < length s \<longrightarrow> n6 = 64 * length s"
  proof
    assume "\<not> n6 div 64 < length s"
    then have "\<not> n6 < 64 * length s" using div_lt_len by blast
    then show "n6 = 64 * length s" using n6(3) by linarith
  qed
  have more: "n6 div 64 < length s \<longrightarrow>
        (\<exists>n7. findUnset s n6 (n6 div 64) (2 ^ (n5 mod 64)) = Some (Inr (n7, 2 ^ (n7 mod 64))) \<and>
           n6 \<le> n7 \<and> n7 div 64 = n6 div 64 \<and> \<not> IsSet s n7 \<and>
           (\<forall>c. n6 \<le> c \<and> c < n7 \<longrightarrow> IsSet s c))"
  proof
    assume idx: "n6 div 64 < length s"
    then have "s ! (n6 div 64) \<noteq> NOT 0" using n6(6) by blast
    from nonones_word_nonmember[OF n6(4) idx this]
    obtain c where c: "n6 \<le> c" "c div 64 = n6 div 64" "\<not> IsSet s c"
      by (elim exE conjE) (rule that)
    have mm: "n5 mod 64 = n6 mod 64" using assms(1) n6(4) by simp
    show "\<exists>n7. findUnset s n6 (n6 div 64) (2 ^ (n5 mod 64)) = Some (Inr (n7, 2 ^ (n7 mod 64))) \<and>
           n6 \<le> n7 \<and> n7 div 64 = n6 div 64 \<and> \<not> IsSet s n7 \<and>
           (\<forall>c. n6 \<le> c \<and> c < n7 \<longrightarrow> IsSet s c)"
      unfolding mm using findUnset_spec[OF idx c] .
  qed
  show ?thesis
    using n6(1,2,3,5) full more by (intro exI[of _ n6] conjI)
qed


lemma List_loop_spec:
  "n \<le> 64 * length s \<Longrightarrow>
   \<exists>l'. List_loop s acc n (n div 64) (2 ^ (n mod 64)) = Some (Inr (acc @ l')) \<and>
        separated n l' \<and> (\<forall>c. inList l' c \<longleftrightarrow> n \<le> c \<and> IsSet s c)"
proof (induction "64 * length s - n" arbitrary: n acc rule: less_induct)
  case less
  from find_start[OF less.prems]
  obtain n1 n2 where
    A: "(if (2::64 word) ^ (n mod 64) \<noteq> 1 then scanForSet s n (n div 64) (2 ^ (n mod 64))
      else Some (Inr (n, n div 64, 2 ^ (n mod 64)))) =
       Some (Inr (n1, n1 div 64, 2 ^ (n1 mod 64)))" and
    B: "skipZeroWords s n1 (n1 div 64) = (n2, n2 div 64)" and
    n2: "n \<le> n2" "n2 \<le> 64 * length s" "n2 mod 64 = n1 mod 64" and
    none2: "\<forall>c. n \<le> c \<and> c < n2 \<longrightarrow> \<not> IsSet s c" and
    ex2: "n2 div 64 < length s \<longrightarrow> (\<exists>c. n2 \<le> c \<and> c div 64 = n2 div 64 \<and> IsSet s c)"
    by (elim exE conjE) (rule that)
  show ?case
  proof (cases "n2 div 64 < length s")
    case False
    then have nl: "length s \<le> n2 div 64" by simp
    have res: "List_loop s acc n (n div 64) (2 ^ (n mod 64)) = Some (Inr (acc @ []))"
      by (subst List_loop.simps)
        (simp only: A B nl option.case sum.case prod.case if_True append_Nil2)
    have "\<not> n2 < 64 * length s" using False div_lt_len by blast
    then have ge: "64 * length s \<le> n2" by simp
    have cov: "\<forall>c. inList [] c \<longleftrightarrow> n \<le> c \<and> IsSet s c"
    proof
      fix c
      have "\<not> (n \<le> c \<and> IsSet s c)"
      proof
        assume a: "n \<le> c \<and> IsSet s c"
        then have "c < 64 * length s" using IsSet_lt by blast
        then have "c < n2" using ge by linarith
        then show False using none2 a by blast
      qed
      then show "inList [] c \<longleftrightarrow> n \<le> c \<and> IsSet s c" by simp
    qed
    have sep: "separated n []" by simp
    show ?thesis using res sep cov by (intro exI[of _ "[]"] conjI)
  next
    case True
    then have nl: "\<not> length s \<le> n2 div 64" by simp
    from ex2 True obtain c where c: "n2 \<le> c" "c div 64 = n2 div 64" "IsSet s c"
      by blast
    from findSet_spec[OF True c]
    obtain n3 where C': "findSet s n2 (n2 div 64) (2 ^ (n2 mod 64)) = Some (Inr (n3, 2 ^ (n3 mod 64)))"
      and n3: "n2 \<le> n3" "n3 div 64 = n2 div 64" "IsSet s n3"
      and none3: "\<forall>c'. n2 \<le> c' \<and> c' < n3 \<longrightarrow> \<not> IsSet s c'"
      by (elim exE conjE) (rule that)
    have C: "findSet s n2 (n2 div 64) (2 ^ (n1 mod 64)) = Some (Inr (n3, 2 ^ (n3 mod 64)))"
      using C' unfolding n2(3) .
    have D: "(if push_bit 1 ((2::64 word) ^ (n3 mod 64)) = 0 then (n2 div 64 + 1, 1::64 word)
        else (n2 div 64, push_bit 1 ((2::64 word) ^ (n3 mod 64)))) =
       ((n3 + 1) div 64, (2::64 word) ^ ((n3 + 1) mod 64))"
      using advance[of n3] unfolding n3(2) .
    have none: "\<forall>c. n \<le> c \<and> c < n3 \<longrightarrow> \<not> IsSet s c"
      using none_join[OF none2 none3] .
    have le3: "n \<le> n3" using n2(1) n3(1) by linarith
    from find_end[OF n3(3)]
    obtain e n5 where
      E: "(if (2::64 word) ^ ((n3 + 1) mod 64) \<noteq> 1
          then scanForUnset s (n3 + 1) ((n3 + 1) div 64) (2 ^ ((n3 + 1) mod 64))
          else Some (Inr (WordEnd, n3 + 1, (n3 + 1) div 64, 2 ^ ((n3 + 1) mod 64)))) =
         Some (Inr (e, n5, n5 div 64, 2 ^ (n5 mod 64)))" and
      n5: "n3 < n5" "n5 \<le> 64 * length s" and
      all5: "\<forall>c. n3 \<le> c \<and> c < n5 \<longrightarrow> IsSet s c" and
      f5: "e = FoundUnset \<longrightarrow> \<not> IsSet s n5" and
      w5: "e = WordEnd \<longrightarrow> n5 mod 64 = 0"
      by (elim exE conjE) (rule that)
    show ?thesis
    proof (cases e)
      case FoundUnset
      have step: "List_loop s acc n (n div 64) (2 ^ (n mod 64)) =
                  List_loop s (acc @ [(n3, n5 - 1)]) n5 (n5 div 64) (2 ^ (n5 mod 64))"
        by (subst List_loop.simps)
          (simp only: A B nl C D E[unfolded FoundUnset] Let_def
             option.case sum.case prod.case scan_exit.case if_False)
      have m: "64 * length s - n5 < 64 * length s - n"
        using le3 n5 by linarith
      from less.hyps[OF m n5(2), of "acc @ [(n3, n5 - 1)]"]
      obtain l'' where
        r: "List_loop s (acc @ [(n3, n5 - 1)]) n5 (n5 div 64) (2 ^ (n5 mod 64)) =
            Some (Inr ((acc @ [(n3, n5 - 1)]) @ l''))" and
        sep: "separated n5 l''" and
        cov: "\<forall>c. inList l'' c \<longleftrightarrow> n5 \<le> c \<and> IsSet s c"
        by (elim exE conjE) (rule that)
      have nm: "\<not> IsSet s n5" using f5 FoundUnset by blast
      have res: "List_loop s acc n (n div 64) (2 ^ (n mod 64)) =
                 Some (Inr (acc @ (n3, n5 - 1) # l''))"
        using step r by simp
      from close_range[OF le3 n5(1) none all5 nm sep cov]
      show ?thesis using res by (intro exI[of _ "(n3, n5 - 1) # l''"]) simp
    next
      case WordEnd
      then have md: "n5 mod 64 = 0" using w5 by blast
      from find_end_skip[OF md n5(2)]
      obtain n6 where
        F: "skipOnesWords s n5 (n5 div 64) = (n6, n6 div 64)" and
        n6: "n5 \<le> n6" "n6 \<le> 64 * length s" and
        all6: "\<forall>c. n5 \<le> c \<and> c < n6 \<longrightarrow> IsSet s c" and
        full: "\<not> n6 div 64 < length s \<longrightarrow> n6 = 64 * length s" and
        more: "n6 div 64 < length s \<longrightarrow>
          (\<exists>n7. findUnset s n6 (n6 div 64) (2 ^ (n5 mod 64)) = Some (Inr (n7, 2 ^ (n7 mod 64))) \<and>
             n6 \<le> n7 \<and> n7 div 64 = n6 div 64 \<and> \<not> IsSet s n7 \<and>
             (\<forall>c. n6 \<le> c \<and> c < n7 \<longrightarrow> IsSet s c))"
        by (elim exE conjE) (rule that)
      have all: "\<forall>c. n3 \<le> c \<and> c < n6 \<longrightarrow> IsSet s c"
        using none_join[OF all5 all6] .
      have lt6: "n3 < n6" using n5(1) n6(1) by linarith
      show ?thesis
      proof (cases "n6 div 64 < length s")
        case False
        then have nl6: "length s \<le> n6 div 64" by simp
        have res: "List_loop s acc n (n div 64) (2 ^ (n mod 64)) =
                   Some (Inr (acc @ [(n3, n6 - 1)]))"
          by (subst List_loop.simps)
            (simp only: A B nl C D E[unfolded WordEnd] F nl6 Let_def
               option.case sum.case prod.case scan_exit.case if_False if_True)
        have eq6: "n6 = 64 * length s" using full False by blast
        from last_range[OF le3 lt6 eq6 none all]
        show ?thesis using res by (intro exI[of _ "[(n3, n6 - 1)]"]) simp
      next
        case idx6: True
        then have nl6: "\<not> length s \<le> n6 div 64" by simp
        from more idx6
        obtain n7 where
          G: "findUnset s n6 (n6 div 64) (2 ^ (n5 mod 64)) = Some (Inr (n7, 2 ^ (n7 mod 64)))" and
          n7: "n6 \<le> n7" "n7 div 64 = n6 div 64" "\<not> IsSet s n7" and
          all7: "\<forall>c. n6 \<le> c \<and> c < n7 \<longrightarrow> IsSet s c"
          by (elim impE exE conjE) (assumption, rule that)
        have step: "List_loop s acc n (n div 64) (2 ^ (n mod 64)) =
                    List_loop s (acc @ [(n3, n7 - 1)]) n7 (n6 div 64) (2 ^ (n7 mod 64))"
          by (subst List_loop.simps)
            (simp only: A B nl C D E[unfolded WordEnd] F nl6 G Let_def
               option.case sum.case prod.case scan_exit.case if_False if_True)
        have "n7 div 64 < length s" using idx6 n7(2) by simp
        then have "64 * (n7 div 64) + 64 \<le> 64 * length s" by linarith
        then have le7: "n7 \<le> 64 * length s" using word_top[of n7] by linarith
        have lt7: "n3 < n7" using lt6 n7(1) by linarith
        have m: "64 * length s - n7 < 64 * length s - n"
          using le3 lt7 le7 by linarith
        from less.hyps[OF m le7, of "acc @ [(n3, n7 - 1)]"]
        obtain l'' where
          r: "List_loop s (acc @ [(n3, n7 - 1)]) n7 (n7 div 64) (2 ^ (n7 mod 64)) =
              Some (Inr ((acc @ [(n3, n7 - 1)]) @ l''))" and
          sep: "separated n7 l''" and
          cov: "\<forall>c. inList l'' c \<longleftrightarrow> n7 \<le> c \<and> IsSet s c"
          by (elim exE conjE) (rule that)
        have res: "List_loop s acc n (n div 64) (2 ^ (n mod 64)) =
                   Some (Inr (acc @ (n3, n7 - 1) # l''))"
          using step r n7(2) by simp
        have all': "\<forall>c. n3 \<le> c \<and> c < n7 \<longrightarrow> IsSet s c"
          using none_join[OF all all7] .
        from close_range[OF le3 lt7 none all' n7(3) sep cov]
        show ?thesis using res by (intro exI[of _ "(n3, n7 - 1) # l''"]) simp
      qed
    qed
  qed
qed

subsection \<open>Set.List and List.Set\<close>

lemma Set_List_spec:
  "\<exists>l. Set_List s = Some (Inr l) \<and> separated 0 l \<and> (\<forall>c. inList l c \<longleftrightarrow> IsSet s c)"
  using List_loop_spec[of 0 s "[]"] by (simp add: Set_List_def)

text \<open>
  C4. For every set \<open>s\<close>, \<open>s.List()\<close> returns (it neither panics nor loops) a list of
  inclusive ranges with \<open>from \<le> to\<close>, strictly increasing, pairwise disjoint and
  non-adjacent: the next range starts at least two above the end of the one before, and
  since the list holds exactly the members of \<open>s\<close>, the CPU after each range is absent.
  The one-word set \<open>{0xaa0}\<close> gives \<open>[[5,5],[7,7],[9,9],[11,11]]\<close>, the two-word set
  \<open>{^0, 1}\<close> gives \<open>[[0,64]]\<close>.
\<close>

theorem Set_List_canonical:
  "(\<exists>l. Set_List s = Some (Inr l) \<and> separated 0 l \<and> (\<forall>c. inList l c \<longleftrightarrow> IsSet s c)) \<and>
   Set_List [0xaa0] = Some (Inr [(5, 5), (7, 7), (9, 9), (11, 11)]) \<and>
   Set_List [NOT 0, 1] = Some (Inr [(0, 64)])"
proof (intro conjI)
  show "\<exists>l. Set_List s = Some (Inr l) \<and> separated 0 l \<and> (\<forall>c. inList l c \<longleftrightarrow> IsSet s c)"
    by (rule Set_List_spec)
  show "Set_List [0xaa0] = Some (Inr [(5, 5), (7, 7), (9, 9), (11, 11)])"
    by code_simp
  show "Set_List [NOT 0, 1] = Some (Inr [(0, 64)])"
    by code_simp
qed

text \<open>
  \<open>List.Set\<close>. Where the allocation fits, \<open>AddRange\<close> with the check of \<open>make\<close> is
  \<open>AddRange\<close>; for a range below CPU 64 its result has one word for the nil receiver and
  64 words for each word of any other receiver.
\<close>

lemma AddRange_alloc_cases:
  assumes "from \<le> to"
  shows "AddRange_alloc maxAlloc s from to =
     (if max (to div 64 + 1) (length s * 64) * 8 > maxAlloc then Inl MakeSliceLen
      else AddRange s from to)"
  using assms
  by (simp add: AddRange_alloc_def AddRange_def makeslice_def Let_def bitsperword_def
      wordbytesize_def)

lemma AddRange_alloc_small:
  assumes "from \<le> to" "to < 64"
  shows "AddRange_alloc maxAlloc s from to = Inl MakeSliceLen \<or>
         (\<exists>r. AddRange_alloc maxAlloc s from to = Inr r \<and>
              length r = max 1 (length s * 64) \<and> length r * 8 \<le> maxAlloc)"
proof (cases "max (to div 64 + 1) (length s * 64) * 8 > maxAlloc")
  case True
  then show ?thesis using AddRange_alloc_cases[OF assms(1), of maxAlloc s] by simp
next
  case False
  then have eq: "AddRange_alloc maxAlloc s from to = AddRange s from to"
    using AddRange_alloc_cases[OF assms(1), of maxAlloc s] by simp
  from AddRange_Inr[OF assms(1), of s]
  obtain r where r: "AddRange s from to = Inr r"
      "length r = max (to div 64 + 1) (length s * 64)"
    by (elim exE conjE) (rule that)
  have d: "to div 64 = 0" using assms(2) by simp
  show ?thesis using eq r False d by simp
qed

text \<open>
  The loop of \<open>List.Set\<close> over ranges below CPU 64: it ends in the panic of \<open>make\<close>, or it
  returns a set whose length is that of the start set taken through \<open>n \<mapsto> max 1 (64 n)\<close>
  once per remaining range, and whose last allocation was within the limit.
\<close>

lemma Set_loop_length:
  assumes "\<forall>r \<in> set l. fst r \<le> snd r \<and> snd r < 64" "i \<le> length l"
  shows "Set_loop maxAlloc l i s = Inl MakeSliceLen \<or>
         (\<exists>s'. Set_loop maxAlloc l i s = Inr s' \<and>
               length s' = ((\<lambda>n. max 1 (n * 64)) ^^ (length l - i)) (length s) \<and>
               (i < length l \<longrightarrow> length s' * 8 \<le> maxAlloc))"
  using assms(2)
proof (induction "length l - i" arbitrary: i s rule: less_induct)
  case less
  show ?case
  proof (cases "i < length l")
    case False
    then show ?thesis using less.prems by (subst Set_loop.simps) simp
  next
    case True
    let ?r = "l ! (length l - i - 1)"
    have "?r \<in> set l" using True by simp
    then have v: "fst ?r \<le> snd ?r" "snd ?r < 64" using assms(1) by blast+
    from AddRange_alloc_small[OF v, of maxAlloc s]
    show ?thesis
    proof
      assume "AddRange_alloc maxAlloc s (fst ?r) (snd ?r) = Inl MakeSliceLen"
      then show ?thesis using True by (subst Set_loop.simps) (simp add: Let_def)
    next
      assume "\<exists>r. AddRange_alloc maxAlloc s (fst ?r) (snd ?r) = Inr r \<and>
                  length r = max 1 (length s * 64) \<and> length r * 8 \<le> maxAlloc"
      then obtain s1 where s1: "AddRange_alloc maxAlloc s (fst ?r) (snd ?r) = Inr s1"
          "length s1 = max 1 (length s * 64)" "length s1 * 8 \<le> maxAlloc"
        by (elim exE conjE) (rule that)
      have step: "Set_loop maxAlloc l i s = Set_loop maxAlloc l (i + 1) s1"
        using True s1(1) by (subst Set_loop.simps) (simp add: Let_def)
      have m: "length l - (i + 1) < length l - i" using True by simp
      have le: "i + 1 \<le> length l" using True by simp
      have fp: "((\<lambda>n. max 1 (n * 64)) ^^ (length l - (i + 1))) (length s1) =
                ((\<lambda>n. max 1 (n * 64)) ^^ (length l - i)) (length s)"
      proof -
        have "length l - i = Suc (length l - (i + 1))" using True by simp
        then show ?thesis using s1(2) by (simp only: funpow_Suc_right o_apply)
      qed
      show ?thesis
      proof (cases "i + 1 < length l")
        case True
        from less.hyps[OF m le, of s1] show ?thesis
          unfolding step fp using True by simp
      next
        case False
        then have e: "i + 1 = length l" using le by simp
        have "Set_loop maxAlloc l (i + 1) s1 = Inr s1"
          using e by (subst Set_loop.simps) simp
        then show ?thesis unfolding step using s1 fp e True by simp
      qed
    qed
  qed
qed

text \<open>
  C1. Converting a set to a range list and back does not reproduce the membership of
  every set, because for some sets \<open>List.Set\<close> does not return. The one-word set
  \<open>{0x15555}\<close> (CPUs 0, 2, 4, ..., 16) has the list \<open>[[0,0],[2,2],...,[16,16]]\<close> of nine
  ranges. \<open>List.Set\<close> calls \<open>AddRange\<close> once per range, and \<open>AddRange\<close> allocates 64 words
  for each word of its receiver: the results have 1, 64, \<open>64\<^sup>2\<close>, ... words, and the ninth
  call asks \<open>make\<close> for \<open>64\<^sup>8 = 2\<^sup>4\<^sup>8\<close> words, \<open>2\<^sup>5\<^sup>1\<close> bytes. For every allocation limit
  below \<open>2\<^sup>5\<^sup>1\<close> bytes (the Go run time's is \<open>2\<^sup>4\<^sup>8\<close> bytes on 64-bit Linux) the run ends
  in the panic \<open>makeslice: len out of range\<close>, at the ninth call or before, so
  \<open>s.List().Set().IsSet(c)\<close> has no value to compare with \<open>s.IsSet(c)\<close>.
\<close>

theorem List_Set_makeslice_panic:
  "Set_List [0x15555] =
     Some (Inr [(0, 0), (2, 2), (4, 4), (6, 6), (8, 8), (10, 10), (12, 12), (14, 14), (16, 16)]) \<and>
   (\<forall>maxAlloc. maxAlloc < 2 ^ 51 \<longrightarrow>
      List_Set maxAlloc
        [(0, 0), (2, 2), (4, 4), (6, 6), (8, 8), (10, 10), (12, 12), (14, 14), (16, 16)] =
      Inl MakeSliceLen)"
proof (intro conjI allI impI)
  show "Set_List [0x15555] =
     Some (Inr [(0, 0), (2, 2), (4, 4), (6, 6), (8, 8), (10, 10), (12, 12), (14, 14), (16, 16)])"
    by code_simp
next
  fix maxAlloc :: nat
  assume lt: "maxAlloc < 2 ^ 51"
  let ?l = "[(0, 0), (2, 2), (4, 4), (6, 6), (8, 8), (10, 10), (12, 12), (14, 14), (16::nat, 16::nat)]"
  have v: "\<forall>r \<in> set ?l. fst r \<le> snd r \<and> snd r < 64" by simp
  have n: "((\<lambda>n. max 1 (n * 64)) ^^ (length ?l - 0)) (length ([] :: Set)) = (2::nat) ^ 48"
    by simp
  from Set_loop_length[OF v, of 0 maxAlloc "[]"]
  have "Set_loop maxAlloc ?l 0 [] = Inl MakeSliceLen"
  proof
    assume "Set_loop maxAlloc ?l 0 [] = Inl MakeSliceLen"
    then show ?thesis .
  next
    assume "\<exists>s'. Set_loop maxAlloc ?l 0 [] = Inr s' \<and>
               length s' = ((\<lambda>n. max 1 (n * 64)) ^^ (length ?l - 0)) (length ([] :: Set)) \<and>
               (0 < length ?l \<longrightarrow> length s' * 8 \<le> maxAlloc)"
    then have "(2::nat) ^ 48 * 8 \<le> maxAlloc" unfolding n by auto
    then show ?thesis using lt by simp
  qed simp
  then show "List_Set maxAlloc ?l = Inl MakeSliceLen" by (simp add: List_Set_def)
qed

theorem List_Set_makeslice_panic_witness:
  "(2::nat) ^ 48 < 2 ^ 51 \<and>
   List_Set (2 ^ 48)
     [(0, 0), (2, 2), (4, 4), (6, 6), (8, 8), (10, 10), (12, 12), (14, 14), (16, 16)] =
   Inl MakeSliceLen"
  using List_Set_makeslice_panic by simp

subsection \<open>List.IsOverlapping and List.Overlap\<close>

lemma Overlap_outer_Cons:
  "Overlap_outer (r1 # l) another acc i =
     (if i \<ge> length another then acc
      else
        let acc' = (if snd r1 \<ge> fst (another ! i) \<and> fst r1 \<le> snd (another ! i)
                    then acc @ [(max (fst r1) (fst (another ! i)), min (snd r1) (snd (another ! i)))]
                    else acc)
        in if snd (another ! i) > snd r1 then Overlap_outer l another acc' i
           else Overlap_outer (r1 # l) another acc' (i + 1))"
  by (subst Overlap_outer.simps, subst Overlap_inner.simps) (simp add: Let_def)

lemma Overlap_outer_merge:
  "Overlap_outer l another acc i = acc @ overlap_merge l (drop i another)"
proof (induction l arbitrary: acc i)
  case Nil
  then show ?case by simp
next
  case (Cons r1 l)
  show ?case
  proof (induction "length another - i" arbitrary: acc i rule: less_induct)
    case less
    show ?case
    proof (cases "i \<ge> length another")
      case True
      then show ?thesis by (subst Overlap_outer_Cons) simp
    next
      case False
      then have lt: "i < length another" by simp
      have d: "drop i another = another ! i # drop (i + 1) another"
        using Cons_nth_drop_Suc[OF lt] by simp
      have m: "length another - (i + 1) < length another - i" using lt by linarith
      show ?thesis
        using False Cons.IH less.hyps[OF m]
        by (subst Overlap_outer_Cons) (simp add: d Let_def del: Overlap_outer.simps)
    qed
  qed
qed

lemma IsOverlapping_outer_Cons:
  "IsOverlapping_outer (r1 # l) another i =
     (if i \<ge> length another then False
      else if snd r1 \<ge> fst (another ! i) \<and> fst r1 \<le> snd (another ! i) then True
      else if fst (another ! i) > snd r1 then IsOverlapping_outer l another i
      else IsOverlapping_outer (r1 # l) another (i + 1))"
  by (subst IsOverlapping_outer.simps, subst IsOverlapping_inner.simps) simp

lemma IsOverlapping_outer_merge:
  assumes "\<forall>r \<in> set l. fst r \<le> snd r" "\<forall>r \<in> set another. fst r \<le> snd r"
  shows "IsOverlapping_outer l another i \<longleftrightarrow> overlap_merge l (drop i another) \<noteq> []"
  using assms(1)
proof (induction l arbitrary: i)
  case Nil
  then show ?case by simp
next
  case (Cons r1 l)
  have v1: "fst r1 \<le> snd r1" using Cons.prems by simp
  have vl: "\<forall>r \<in> set l. fst r \<le> snd r" using Cons.prems by simp
  show ?case
  proof (induction "length another - i" arbitrary: i rule: less_induct)
    case less
    show ?case
    proof (cases "i \<ge> length another")
      case True
      then show ?thesis by (subst IsOverlapping_outer_Cons) simp
    next
      case False
      then have lt: "i < length another" by simp
      have d: "drop i another = another ! i # drop (i + 1) another"
        using Cons_nth_drop_Suc[OF lt] by simp
      have m: "length another - (i + 1) < length another - i" using lt by linarith
      have v2: "fst (another ! i) \<le> snd (another ! i)"
        using assms(2) nth_mem[OF lt] by blast
      show ?thesis
      proof (cases "snd r1 \<ge> fst (another ! i) \<and> fst r1 \<le> snd (another ! i)")
        case True
        then show ?thesis using False
          by (subst IsOverlapping_outer_Cons) (simp add: d del: IsOverlapping_outer.simps)
      next
        case no: False
        have same: "(fst (another ! i) > snd r1) = (snd (another ! i) > snd r1)"
          using no v1 v2 by linarith
        have lhs: "IsOverlapping_outer (r1 # l) another i =
            (if snd (another ! i) > snd r1 then IsOverlapping_outer l another i
             else IsOverlapping_outer (r1 # l) another (i + 1))"
          using False no same
          by (subst IsOverlapping_outer_Cons) (auto simp del: IsOverlapping_outer.simps)
        have "overlap_merge (r1 # l) (another ! i # drop (i + 1) another) =
            (if snd (another ! i) > snd r1 then overlap_merge l (another ! i # drop (i + 1) another)
             else overlap_merge (r1 # l) (drop (i + 1) another))"
          using no by auto
        then have rhs: "overlap_merge (r1 # l) (drop i another) =
            (if snd (another ! i) > snd r1 then overlap_merge l (drop i another)
             else overlap_merge (r1 # l) (drop (i + 1) another))"
          unfolding d[symmetric] .
        show ?thesis
          unfolding lhs rhs using Cons.IH[OF vl, of i] less.hyps[OF m] by simp
      qed
    qed
  qed
qed

lemma canonical_valid: "canonical l \<Longrightarrow> r \<in> set l \<Longrightarrow> fst r \<le> snd r"
  by (induction l rule: canonical.induct) auto

lemma overlap_merge_Nil2: "overlap_merge l [] = []"
  by (cases l) auto

lemma overlap_merge_skip_left:
  assumes "canonical (r2 # m)" "snd r1 \<le> snd r2"
  shows "overlap_merge (r1 # l) m = overlap_merge l m"
proof (cases m)
  case Nil
  then show ?thesis by (simp add: overlap_merge_Nil2)
next
  case (Cons x m')
  have "snd r2 < fst x" using assms(1) Cons by simp
  moreover have "fst x \<le> snd x" using assms(1) Cons by (cases m') auto
  ultimately show ?thesis using assms(2) Cons by simp
qed

lemma overlap_merge_commute:
  "canonical a \<Longrightarrow> canonical b \<Longrightarrow> overlap_merge a b = overlap_merge b a"
proof (induction "length a + length b" arbitrary: a b rule: less_induct)
  case less
  show ?case
  proof (cases a)
    case Nil
    then show ?thesis by (simp add: overlap_merge_Nil2)
  next
    case a: (Cons r1 l)
    show ?thesis
    proof (cases b)
      case Nil
      then show ?thesis by (simp add: overlap_merge_Nil2)
    next
      case b: (Cons r2 m)
      have cl: "canonical l" using less.prems(1) a canonical_tl by blast
      have cm: "canonical m" using less.prems(2) b canonical_tl by blast
      have seg: "(snd r1 \<ge> fst r2 \<and> fst r1 \<le> snd r2) = (snd r2 \<ge> fst r1 \<and> fst r2 \<le> snd r1)"
        by auto
      have mm: "max (fst r1) (fst r2) = max (fst r2) (fst r1)"
               "min (snd r1) (snd r2) = min (snd r2) (snd r1)"
        by (simp_all add: max.commute min.commute)
      consider (lt) "snd r1 < snd r2" | (gt) "snd r2 < snd r1" | (eq) "snd r1 = snd r2"
        by linarith
      then show ?thesis
      proof cases
        case lt
        have "overlap_merge l (r2 # m) = overlap_merge (r2 # m) l"
          using less.hyps[of l "r2 # m"] cl less.prems(2) a b by simp
        then show ?thesis using lt a b seg mm by simp
      next
        case gt
        have "overlap_merge (r1 # l) m = overlap_merge m (r1 # l)"
          using less.hyps[of "r1 # l" m] cm less.prems(1) a b by simp
        then show ?thesis using gt a b seg mm by simp
      next
        case eq
        have 1: "overlap_merge (r1 # l) m = overlap_merge l m"
          using overlap_merge_skip_left[of r2 m r1 l] less.prems(2) b eq by simp
        have 2: "overlap_merge (r2 # m) l = overlap_merge m l"
          using overlap_merge_skip_left[of r1 l r2 m] less.prems(1) a eq by simp
        have "overlap_merge l m = overlap_merge m l"
          using less.hyps[of l m] cl cm a b by simp
        then show ?thesis using eq a b seg mm 1 2 by simp
      qed
    qed
  qed
qed

text \<open>
  C5. For canonical range lists \<open>a\<close> and \<open>b\<close> (every range with \<open>from \<le> to\<close>, ranges
  increasing and not overlapping), \<open>a.Overlap(b) = b.Overlap(a)\<close>, and \<open>a.IsOverlapping(b)\<close>
  is true exactly when \<open>a.Overlap(b)\<close> is non-empty.
\<close>

theorem List_Overlap_commutes:
  "canonical a \<and> canonical b \<longrightarrow>
     List_Overlap a b = List_Overlap b a \<and>
     (List_IsOverlapping a b \<longleftrightarrow> List_Overlap a b \<noteq> [])"
proof
  assume c: "canonical a \<and> canonical b"
  have va: "\<forall>r \<in> set a. fst r \<le> snd r" using c canonical_valid by blast
  have vb: "\<forall>r \<in> set b. fst r \<le> snd r" using c canonical_valid by blast
  have "List_Overlap a b = List_Overlap b a"
    using overlap_merge_commute[of a b] c
    by (simp add: List_Overlap_def Overlap_outer_merge)
  moreover have "List_IsOverlapping a b \<longleftrightarrow> List_Overlap a b \<noteq> []"
    using IsOverlapping_outer_merge[OF va vb, of 0]
    by (simp add: List_IsOverlapping_def List_Overlap_def Overlap_outer_merge)
  ultimately show "List_Overlap a b = List_Overlap b a \<and>
     (List_IsOverlapping a b \<longleftrightarrow> List_Overlap a b \<noteq> [])" by simp
qed

theorem List_Overlap_commutes_witness:
  "canonical [(1, 1), (7, 7), (19, 19)] \<and> canonical [(3, 5), (6, 8)] \<and>
   List_Overlap [(1, 1), (7, 7), (19, 19)] [(3, 5), (6, 8)] = [(7, 7)] \<and>
   List_Overlap [(3, 5), (6, 8)] [(1, 1), (7, 7), (19, 19)] = [(7, 7)] \<and>
   List_IsOverlapping [(1, 1), (7, 7), (19, 19)] [(3, 5), (6, 8)]"
proof -
  have c: "canonical [(1, 1), (7, 7), (19, 19)] \<and> canonical [(3, 5), (6, 8)]" by simp
  have o: "List_Overlap [(1, 1), (7, 7), (19, 19)] [(3, 5), (6, 8)] = [(7, 7)]"
    by (simp add: List_Overlap_def Overlap_outer_merge)
  show ?thesis
    using List_Overlap_commutes[of "[(1, 1), (7, 7), (19, 19)]" "[(3, 5), (6, 8)]"] c o
    by simp
qed

subsection \<open>Single\<close>

lemma pow2_nat:
  fixes n :: nat
  assumes "0 < n" "n AND (n - 1) = 0"
  shows "\<exists>k. n = 2 ^ k"
  using assms
proof (induction n rule: less_induct)
  case (less n)
  have rec: "n AND (n - 1) = of_bool (odd n \<and> odd (n - 1)) + 2 * ((n div 2) AND ((n - 1) div 2))"
    by (rule and_nat_rec)
  show ?case
  proof (cases "even n")
    case True
    then obtain m where m: "n = 2 * m" by (elim evenE)
    then have m0: "0 < m" using less.prems(1) by simp
    have "(n - 1) div 2 = m - 1" using m m0 by (cases m) auto
    then have "m AND (m - 1) = 0" using rec less.prems(2) m by simp
    moreover have "m < n" using m m0 by simp
    ultimately obtain k where "m = 2 ^ k" using less.IH m0 by blast
    then have "n = 2 ^ (Suc k)" using m by simp
    then show ?thesis by blast
  next
    case False
    then obtain m where m: "n = 2 * m + 1" by (elim oddE)
    then have "(n - 1) div 2 = m" "n div 2 = m" by simp_all
    then have "m = 0" using rec less.prems(2) by simp
    then have "n = 2 ^ 0" using m by simp
    then show ?thesis by blast
  qed
qed


lemma unat_exp64:
  assumes "k < 64"
  shows "unat ((2::64 word) ^ k) = 2 ^ k"
proof -
  have lt: "(2::nat) ^ k < 2 ^ 64" using assms by (intro power_strict_increasing) simp_all
  have "(2::64 word) ^ k = of_nat (2 ^ k)" by simp
  then have "unat ((2::64 word) ^ k) = unat (of_nat (2 ^ k) :: 64 word)" by (rule arg_cong)
  also have "\<dots> = 2 ^ k mod 2 ^ 64" by (simp only: unat_of_nat len_num1 len_bit0 mult_1_right) simp
  also have "\<dots> = 2 ^ k" using lt by (rule mod_less)
  finally show ?thesis .
qed

lemma pow2_word:
  fixes el :: "64 word"
  assumes "el \<noteq> 0" "el AND (el - 1) = 0"
  shows "\<exists>k<64. el = 2 ^ k"
proof -
  have pos: "0 < unat el" using assms(1) by (simp add: unat_gt_0)
  have "unat (el AND (el - 1)) = unat el AND (unat el - 1)"
    by (simp add: unsigned_and_eq unat_minus_one[OF assms(1)])
  then have "unat el AND (unat el - 1) = 0" using assms(2) by simp
  from pow2_nat[OF pos this] obtain k where k: "unat el = 2 ^ k" by blast
  have "unat el < 2 ^ LENGTH(64)" by (rule unsigned_less)
  then have "(2::nat) ^ k < 2 ^ 64" using k by simp
  then have k64: "k < 64" by (rule power_less_imp_less_exp[rotated]) simp
  have "unat el = unat ((2::64 word) ^ k)" using k unat_exp64[OF k64] by simp
  then have "el = 2 ^ k" by (simp only: word_unat_eq_iff)
  then show ?thesis using k64 by blast
qed

lemma pow2_word_and:
  assumes "k < 64"
  shows "(2::64 word) ^ k AND (2 ^ k - 1) = 0"
proof -
  have "(2::64 word) ^ k - 1 = mask k" by (simp add: mask_eq_exp_minus_1)
  then show ?thesis
    by (simp only:) (rule bit_word_eqI, simp add: bit_and_iff bit_exp_iff bit_mask_iff)
qed

lemma pow2_word_nonzero: "k < 64 \<Longrightarrow> (2::64 word) ^ k \<noteq> 0"
  by simp

lemma Len64_nat_exp: "Len64_nat (2 ^ k) = k + 1"
proof (induction k)
  case 0
  show ?case by (subst Len64_nat.simps, subst Len64_nat.simps) simp
next
  case (Suc k)
  then show ?case by (subst Len64_nat.simps) simp
qed

lemma Len64_exp: "k < 64 \<Longrightarrow> Len64 (2 ^ k) = k + 1"
  by (simp add: Len64_def unat_exp64 Len64_nat_exp)


lemma word_pos:
  fixes i k :: nat
  assumes "k < 64"
  shows "(64 * i + k) div 64 = i" "(64 * i + k) mod 64 = k"
  using assms by simp_all

lemma IsSet_word:
  assumes "i < length s" "k < 64"
  shows "IsSet s (64 * i + k) = bit (s ! i) k"
  using IsSet_bit[of "64 * i + k" s] assms word_pos[OF assms(2), of i] by simp

lemma IsSet_div: "IsSet s c \<Longrightarrow> c div 64 < length s"
  using IsSet_lt div_lt_len by blast

lemma member_of_nonzero:
  assumes "j < length s" "s ! j \<noteq> 0"
  shows "\<exists>c. IsSet s c \<and> c div 64 = j"
proof -
  from assms(2) obtain k where k: "k < 64" "bit (s ! j) k" using word_zero_iff by blast
  have "IsSet s (64 * j + k)" using IsSet_word[OF assms(1) k(1)] k(2) by simp
  then show ?thesis using word_pos(1)[OF k(1), of j] by blast
qed

lemma Single_rest_iff:
  "Single_rest s i \<longleftrightarrow> (\<forall>c. IsSet s c \<longrightarrow> c div 64 < i)"
proof (induction "length s - i" arbitrary: i rule: less_induct)
  case less
  show ?case
  proof (cases "i < length s")
    case False
    then have "Single_rest s i" by (subst Single_rest.simps) simp
    moreover have "\<forall>c. IsSet s c \<longrightarrow> c div 64 < i"
      using False IsSet_div by fastforce
    ultimately show ?thesis by blast
  next
    case True
    show ?thesis
    proof (cases "s ! i = 0")
      case nz: False
      then have "\<not> Single_rest s i" using True by (subst Single_rest.simps) simp
      moreover have "\<not> (\<forall>c. IsSet s c \<longrightarrow> c div 64 < i)"
        using member_of_nonzero[OF True nz] by auto
      ultimately show ?thesis by blast
    next
      case z: True
      have m: "length s - (i + 1) < length s - i" using True by linarith
      have "Single_rest s i = Single_rest s (i + 1)"
        using True z by (subst Single_rest.simps) simp
      also have "\<dots> \<longleftrightarrow> (\<forall>c. IsSet s c \<longrightarrow> c div 64 < i + 1)"
        using less.hyps[OF m] .
      also have "\<dots> \<longleftrightarrow> (\<forall>c. IsSet s c \<longrightarrow> c div 64 < i)"
      proof -
        have "c div 64 \<noteq> i" if "IsSet s c" for c
          using that z zero_word_no_member[of s c] by auto
        then show ?thesis by (metis Suc_eq_plus1 less_Suc_eq)
      qed
      finally show ?thesis .
    qed
  qed
qed

lemma one_bit_word:
  fixes el :: "64 word"
  assumes "k < 64" "\<forall>j<64. bit el j \<longleftrightarrow> j = k"
  shows "el = 2 ^ k"
  using assms by (intro bit_word_eqI) (simp add: bit_exp_iff)

lemma Single_loop_spec:
  "(\<forall>cpu. (\<forall>c. (IsSet s c \<and> i \<le> c div 64) \<longleftrightarrow> c = cpu) \<longrightarrow> Single_loop s i = (cpu, True)) \<and>
   ((\<nexists>cpu. \<forall>c. (IsSet s c \<and> i \<le> c div 64) \<longleftrightarrow> c = cpu) \<longrightarrow> Single_loop s i = (0, False))"
proof (induction "length s - i" arbitrary: i rule: less_induct)
  case less
  show ?case
  proof (cases "i < length s")
    case False
    then have r: "Single_loop s i = (0, False)" by (subst Single_loop.simps) simp
    have "\<not> (\<forall>c. (IsSet s c \<and> i \<le> c div 64) \<longleftrightarrow> c = cpu)" for cpu
    proof
      assume "\<forall>c. (IsSet s c \<and> i \<le> c div 64) \<longleftrightarrow> c = cpu"
      then have "IsSet s cpu \<and> i \<le> cpu div 64" by blast
      then show False using False IsSet_div[of s cpu] by linarith
    qed
    then show ?thesis using r by blast
  next
    case True
    show ?thesis
    proof (cases "s ! i = 0")
      case z: True
      have m: "length s - (i + 1) < length s - i" using True by linarith
      have r: "Single_loop s i = Single_loop s (i + 1)"
        using True z by (subst Single_loop.simps) simp
      have "c div 64 \<noteq> i" if "IsSet s c" for c
        using that z zero_word_no_member[of s c] by auto
      then have "(IsSet s c \<and> i \<le> c div 64) = (IsSet s c \<and> i + 1 \<le> c div 64)" for c
        by (metis Suc_eq_plus1 Suc_leI le_neq_implies_less Suc_leD)
      then show ?thesis using less.hyps[OF m] r by simp
    next
      case nz: False
      show ?thesis
      proof (cases "s ! i AND (s ! i - 1) \<noteq> 0")
        case np: True
        have r: "Single_loop s i = (0, False)"
          using True nz np by (subst Single_loop.simps) (simp add: Let_def)
        have "\<not> (\<forall>c. (IsSet s c \<and> i \<le> c div 64) \<longleftrightarrow> c = cpu)" for cpu
        proof
          assume u: "\<forall>c. (IsSet s c \<and> i \<le> c div 64) \<longleftrightarrow> c = cpu"
          have uI: "c = cpu" if "IsSet s c" "i \<le> c div 64" for c
            using u that by blast
          from nz obtain k where k: "k < 64" "bit (s ! i) k" using word_zero_iff by blast
          have "j = k" if "j < 64" "bit (s ! i) j" for j
          proof -
            have mj: "IsSet s (64 * i + j)" using IsSet_word[OF True that(1)] that(2) by simp
            have mk: "IsSet s (64 * i + k)" using IsSet_word[OF True k(1)] k(2) by simp
            have "64 * i + j = cpu"
              using uI[OF mj] word_pos(1)[OF that(1), of i] by simp
            moreover have "64 * i + k = cpu"
              using uI[OF mk] word_pos(1)[OF k(1), of i] by simp
            ultimately show ?thesis by simp
          qed
          then have "\<forall>j<64. bit (s ! i) j \<longleftrightarrow> j = k" using k by blast
          then have "s ! i = 2 ^ k" using one_bit_word[OF k(1)] by blast
          then show False using np pow2_word_and[OF k(1)] by simp
        qed
        then show ?thesis using r by blast
      next
        case False
        then have p: "s ! i AND (s ! i - 1) = 0" by simp
        from pow2_word[OF nz p] obtain k where k: "k < 64" "s ! i = 2 ^ k" by blast
        have len: "Len64 (s ! i) - 1 + i * 64 = 64 * i + k"
          using Len64_exp[OF k(1)] k(2) by simp
        have mem: "IsSet s (64 * i + k)"
          using IsSet_word[OF True k(1)] k by (simp add: bit_exp_iff)
        have only: "c = 64 * i + k" if "IsSet s c" "c div 64 = i" for c
        proof -
          have "bit (s ! i) (c mod 64)" using that IsSet_bit[of c s] True by simp
          then have "c mod 64 = k" using k by (simp add: bit_exp_iff)
          then show ?thesis using that(2) div_mult_mod_eq[of c 64] by simp
        qed
        show ?thesis
        proof (cases "Single_rest s (i + 1)")
          case rest: True
          have r: "Single_loop s i = (64 * i + k, True)"
            using True nz p rest len by (subst Single_loop.simps) (simp add: Let_def)
          have above: "\<forall>c. IsSet s c \<longrightarrow> c div 64 < i + 1"
            using rest Single_rest_iff by blast
          have u: "(IsSet s c \<and> i \<le> c div 64) \<longleftrightarrow> c = 64 * i + k" for c
          proof
            assume a: "IsSet s c \<and> i \<le> c div 64"
            then have "c div 64 < i + 1" using above by blast
            then have "c div 64 = i" using a by linarith
            then show "c = 64 * i + k" using only a by blast
          next
            assume "c = 64 * i + k"
            then show "IsSet s c \<and> i \<le> c div 64"
              using mem word_pos(1)[OF k(1), of i] by simp
          qed
          have "cpu = 64 * i + k"
            if "\<forall>c. (IsSet s c \<and> i \<le> c div 64) \<longleftrightarrow> c = cpu" for cpu
            using that u by blast
          then show ?thesis using r u by blast
        next
          case rest: False
          have r: "Single_loop s i = (0, False)"
            using True nz p rest by (subst Single_loop.simps) (simp add: Let_def)
          from rest Single_rest_iff obtain c' where c': "IsSet s c'" "\<not> c' div 64 < i + 1"
            by blast
          have "\<not> (\<forall>c. (IsSet s c \<and> i \<le> c div 64) \<longleftrightarrow> c = cpu)" for cpu
          proof
            assume u: "\<forall>c. (IsSet s c \<and> i \<le> c div 64) \<longleftrightarrow> c = cpu"
            have uI: "c = cpu" if "IsSet s c" "i \<le> c div 64" for c
              using u that by blast
            have "64 * i + k = cpu"
              using uI[OF mem] word_pos(1)[OF k(1), of i] by simp
            moreover have "c' = cpu" using uI[OF c'(1)] c'(2) by simp
            ultimately have "c' div 64 = i" using word_pos(1)[OF k(1), of i] by simp
            then show False using c'(2) by simp
          qed
          then show ?thesis using r by blast
        qed
      qed
    qed
  qed
qed


lemma Single_loop_unique:
  assumes "\<forall>c. (IsSet s c \<and> i \<le> c div 64) \<longleftrightarrow> c = cpu"
  shows "Single_loop s i = (cpu, True)"
  using assms by (rule Single_loop_spec[of s i, THEN conjunct1, THEN spec, THEN mp])

lemma Single_loop_none:
  assumes "\<nexists>cpu. \<forall>c. (IsSet s c \<and> i \<le> c div 64) \<longleftrightarrow> c = cpu"
  shows "Single_loop s i = (0, False)"
  using assms by (rule Single_loop_spec[of s i, THEN conjunct2, THEN mp])

lemma Single_example: "Single [0, 0x800000000000000, 0, 0] = (123, True)"
proof -
  let ?s = "[0, 0x800000000000000, 0, 0] :: Set"
  have len: "Len64 0x800000000000000 = 60" using Len64_exp[of 59] by simp
  have r4: "Single_rest ?s 4" by (subst Single_rest.simps) simp
  have r3: "Single_rest ?s 3" using r4 by (subst Single_rest.simps) simp
  have r2: "Single_rest ?s 2" using r3 by (subst Single_rest.simps) simp
  have r2': "Single_rest ?s (Suc (Suc 0))" using r2 by (simp add: numeral_2_eq_2)
  have l1: "Single_loop ?s 1 = (123, True)"
    using r2' len by (subst Single_loop.simps) (simp add: Let_def)
  have l0: "Single_loop ?s 0 = (123, True)"
    using l1 by (subst Single_loop.simps) simp
  show ?thesis using l0 by (simp add: Single_def)
qed

text \<open>
  C6. \<open>s.Single()\<close> returns \<open>(cpu, true)\<close> exactly when \<open>cpu\<close> is the one and only member
  of \<open>s\<close>, whatever all-zero words surround the word that holds it; when \<open>s\<close> has no
  member or more than one, it returns \<open>(0, false)\<close>. CPU 123 followed by two zero words
  is found.
\<close>

theorem Single_sole_member:
  "(Single s = (cpu, True) \<longleftrightarrow> (\<forall>c. IsSet s c \<longleftrightarrow> c = cpu)) \<and>
   ((\<nexists>cpu. \<forall>c. IsSet s c \<longleftrightarrow> c = cpu) \<longrightarrow> Single s = (0, False)) \<and>
   Single [0, 0x800000000000000, 0, 0] = (123, True)"
proof -
  have none: "\<not> IsSet s c" if "length s = 0" for c
    using that by (simp add: IsSet_def)
  have eq: "Single s = Single_loop s 0" if "length s \<noteq> 0"
    using that by (simp add: Single_def)
  have yes: "Single s = (cpu', True)" if "\<forall>c. IsSet s c \<longleftrightarrow> c = cpu'" for cpu'
  proof -
    have ne: "length s \<noteq> 0" using that none by blast
    have "\<forall>c. (IsSet s c \<and> 0 \<le> c div 64) \<longleftrightarrow> c = cpu'" using that by simp
    then have "Single_loop s 0 = (cpu', True)" by (rule Single_loop_unique)
    then show ?thesis using eq[OF ne] by simp
  qed
  have no: "Single s = (0, False)" if "\<nexists>cpu. \<forall>c. IsSet s c \<longleftrightarrow> c = cpu"
  proof (cases "length s = 0")
    case True
    then show ?thesis by (simp add: Single_def)
  next
    case False
    have "\<nexists>cpu. \<forall>c. (IsSet s c \<and> 0 \<le> c div 64) \<longleftrightarrow> c = cpu" using that by simp
    then have "Single_loop s 0 = (0, False)" by (rule Single_loop_none)
    then show ?thesis using eq[OF False] by simp
  qed
  have "\<forall>c. IsSet s c \<longleftrightarrow> c = cpu" if r: "Single s = (cpu, True)"
  proof (rule ccontr)
    assume n: "\<not> (\<forall>c. IsSet s c \<longleftrightarrow> c = cpu)"
    show False
    proof (cases "\<exists>cpu'. \<forall>c. IsSet s c \<longleftrightarrow> c = cpu'")
      case True
      then obtain cpu' where u: "\<forall>c. IsSet s c \<longleftrightarrow> c = cpu'" by blast
      then have "cpu' = cpu" using yes[OF u] r by simp
      then show False using u n by simp
    next
      case False
      then show False using no r by simp
    qed
  qed
  then show ?thesis using yes no Single_example by blast
qed

theorem Single_sole_member_witness:
  "(\<nexists>cpu. \<forall>c. IsSet [3] c \<longleftrightarrow> c = cpu) \<and> Single [3] = (0, False)"
proof -
  have m0: "IsSet [3] 0" and m1: "IsSet [3] 1"
    by (simp_all add: IsSet_def bitsperword_def wordbytesize_def setBitIndex_def setBitMask_def)
  have h: "\<nexists>cpu. \<forall>c. IsSet [3] c \<longleftrightarrow> c = cpu"
  proof
    assume "\<exists>cpu. \<forall>c. IsSet [3] c \<longleftrightarrow> c = cpu"
    then obtain cpu where u: "\<forall>c. IsSet [3] c \<longleftrightarrow> c = cpu" by blast
    have "0 = cpu" using u m0 by blast
    moreover have "1 = cpu" using u m1 by blast
    ultimately show False by simp
  qed
  show ?thesis using Single_sole_member[of "[3]" 0] h by blast
qed

subsection \<open>SetAffinity\<close>

text \<open>
  C8, as stated, fails on the code. A set whose words are all zero is empty (the
  documentation of \<open>Set\<close> says so, and no CPU is a member), yet \<open>SetAffinity\<close> tests
  \<open>len(cpus) == 0\<close> only: for the one-word empty mask \<open>{0}\<close> the system call is issued.
\<close>

theorem SetAffinity_zero_word_issued:
  "(\<forall>c. \<not> IsSet [0] c) \<and>
   (\<forall>os issued tid. snd (SetAffinity os issued tid [0]) = issued @ [SchedSetaffinity tid 8 [0]])"
  by (simp add: SetAffinity_def Let_def IsSet_iff wordbytesize_def)

text \<open>
  C8, amended. \<open>SetAffinity\<close> rejects every mask of length zero with \<open>EINVAL\<close> and
  issues no system call; for every mask of at least one word (a mask whose words are
  all zero included) it issues exactly one call, with the thread id, the byte size and the words
  of the mask as given, and returns the \<open>errno\<close> of the OS unchanged, or \<open>nil\<close> when
  that is 0.
\<close>

theorem SetAffinity_calls:
  "(length cpus = 0 \<longrightarrow> SetAffinity os issued tid cpus = (Inl (Errno EINVAL), issued)) \<and>
   (length cpus \<noteq> 0 \<longrightarrow>
      snd (SetAffinity os issued tid cpus) =
        issued @ [SchedSetaffinity tid (length cpus * 8) cpus] \<and>
      fst (SetAffinity os issued tid cpus) =
        (if os (SchedSetaffinity tid (length cpus * 8) cpus) \<noteq> 0
         then Inl (Errno (os (SchedSetaffinity tid (length cpus * 8) cpus)))
         else Inr ()))"
  by (simp add: SetAffinity_def Let_def wordbytesize_def)

theorem SetAffinity_calls_witness:
  "length ([] :: Set) = 0 \<and>
   SetAffinity (\<lambda>c. 0) [] 7 [] = (Inl (Errno EINVAL), []) \<and>
   length [0, 2 :: 64 word] \<noteq> 0 \<and>
   SetAffinity (\<lambda>c. 1) [] 7 [0, 2] = (Inl (Errno 1), [SchedSetaffinity 7 16 [0, 2]])"
  using SetAffinity_calls[of "[]" "\<lambda>c. 0" "[]" 7]
        SetAffinity_calls[of "[0, 2]" "\<lambda>c. 1" "[]" 7]
  by (simp add: prod_eq_iff)

subsection \<open>AddRange and the array of its receiver\<close>








subsection \<open>The size cache never decreases\<close>

lemma exp_le_double:
  assumes "k < 63"
  shows "(2::64 word) ^ k \<le> 2 ^ k * 2"
proof -
  have k0: "k < 64" and k1: "k + 1 < 64" using assms by simp_all
  have e: "(2::64 word) ^ k * 2 = 2 ^ (k + 1)" by simp
  have u0: "unat ((2::64 word) ^ k) = 2 ^ k" using k0 by (rule unat_exp64)
  have u1: "unat ((2::64 word) ^ (k + 1)) = 2 ^ (k + 1)" using k1 by (rule unat_exp64)
  show ?thesis unfolding e word_le_nat_alt u0 u1 by simp
qed

lemma double_pow2:
  assumes "pow2 w" "s \<le> w"
  shows "w * 2 = 0 \<or> (pow2 (w * 2) \<and> s \<le> w * 2)"
proof -
  from assms(1) obtain k where k: "k < 64" "w = 2 ^ k" unfolding pow2_def by blast
  show ?thesis
  proof (cases "k = 63")
    case True
    then have "w * 2 = 2 ^ 64" using k by simp
    then show ?thesis by simp
  next
    case False
    then have k63: "k < 63" using k(1) by simp
    have "w * 2 = 2 ^ (k + 1)" using k(2) by simp
    then have "pow2 (w * 2)" using k63 unfolding pow2_def by (intro exI[of _ "k + 1"]) simp
    moreover have "w \<le> w * 2" using exp_le_double[OF k63] k(2) by simp
    ultimately show ?thesis using assms(2) by auto
  qed
qed

lemma task_step_inv:
  assumes "task_step (sz, t) (sz', t')" "pow2 sz" "task_inv t"
  shows "pow2 sz' \<and> task_inv t' \<and> sz \<le> sz'"
  using assms
proof (cases rule: task_step.cases)
  case load
  then show ?thesis using assms(2) by (simp add: task_inv_def)
next
  case panic
  then show ?thesis using assms(2) by (simp add: task_inv_def)
next
  case einval
  then have "pow2 (setlen t) \<and> setlenStart t \<le> setlen t"
    using assms(3) by (simp add: task_inv_def)
  then have "setlen t * 2 = 0 \<or> (pow2 (setlen t * 2) \<and> setlenStart t \<le> setlen t * 2)"
    using double_pow2 by blast
  then show ?thesis using einval assms(2) by (simp add: task_inv_def)
next
  case failure
  then show ?thesis using assms(2) by (simp add: task_inv_def)
next
  case success
  then show ?thesis using assms(2,3) by (simp add: task_inv_def)
next
  case cas_swapped
  then show ?thesis using assms(3) by (simp add: task_inv_def)
next
  case cas_failed
  then show ?thesis using assms(2,3) by (simp add: task_inv_def)
next
  case reload
  then show ?thesis using assms(2,3) by (auto simp: task_inv_def)
qed

lemma sys_step_inv:
  assumes "sys_step s s'" "sys_inv s"
  shows "sys_inv s' \<and> setsize s \<le> setsize s'"
  using assms
proof (cases rule: sys_step.cases)
  case call
  then show ?thesis using assms(2) by (simp add: sys_inv_def task_inv_def)
next
  case (run i sz' t')
  have ti: "task_inv (tasks s ! i)"
    using assms(2) run(2) by (simp add: sys_inv_def list_all_length)
  from task_step_inv[OF run(3) _ ti] assms(2)
  have r: "pow2 sz'" "task_inv t'" "setsize s \<le> sz'" by (simp_all add: sys_inv_def)
  have "list_all task_inv ((tasks s)[i := t'])"
    using assms(2) r(2) run(2) by (auto simp: sys_inv_def list_all_length nth_list_update)
  then show ?thesis using run(1) r by (simp add: sys_inv_def)
qed

lemma reachable_inv: "reachable s \<Longrightarrow> sys_inv s"
proof (induction rule: reachable.induct)
  case start
  show ?case unfolding sys_inv_def init_def pow2_def by (simp add: exI[of _ 0])
next
  case (step s s')
  then show ?case using sys_step_inv by blast
qed

text \<open>
  C9. In every execution, from the initial cache of 1 and with any number of concurrent
  calls of \<open>Affinity\<close> interleaved in any order, the cache after any number of steps is
  at least the cache before them: no step replaces \<open>setsize\<close> by a smaller value.
\<close>

theorem setsize_monotone:
  "reachable s \<and> sys_step\<^sup>*\<^sup>* s s' \<longrightarrow> setsize s \<le> setsize s'"
proof
  assume a: "reachable s \<and> sys_step\<^sup>*\<^sup>* s s'"
  then have "sys_step\<^sup>*\<^sup>* s s'" by simp
  then have "reachable s' \<and> setsize s \<le> setsize s'"
  proof (induction rule: rtranclp_induct)
    case base
    then show ?case using a by simp
  next
    case (step y z)
    then have "sys_inv y" using reachable_inv by blast
    from sys_step_inv[OF step(2) this] step
    show ?case using reachable.step[of y z] by auto
  qed
  then show "setsize s \<le> setsize s'" by simp
qed


theorem setsize_monotone_witness:
  "reachable \<lparr>setsize = 1, tasks = [\<lparr>pc = Publish, setlenStart = 1, setlen = 2\<rparr>]\<rparr> \<and>
   sys_step\<^sup>*\<^sup>* \<lparr>setsize = 1, tasks = [\<lparr>pc = Publish, setlenStart = 1, setlen = 2\<rparr>]\<rparr>
     \<lparr>setsize = 2, tasks = [\<lparr>pc = Returned, setlenStart = 1, setlen = 2\<rparr>]\<rparr> \<and>
   setsize \<lparr>setsize = 1, tasks = [\<lparr>pc = Publish, setlenStart = 1, setlen = 2\<rparr>]\<rparr>
     \<le> setsize \<lparr>setsize = 2, tasks = [\<lparr>pc = Returned, setlenStart = 1, setlen = 2\<rparr>]\<rparr>"
proof -
  let ?s1 = "\<lparr>setsize = 1, tasks = [\<lparr>pc = Start, setlenStart = 0, setlen = 0\<rparr>]\<rparr>"
  let ?s2 = "\<lparr>setsize = 1, tasks = [\<lparr>pc = Syscall, setlenStart = 1, setlen = 1\<rparr>]\<rparr>"
  let ?s3 = "\<lparr>setsize = 1, tasks = [\<lparr>pc = Syscall, setlenStart = 1, setlen = 2\<rparr>]\<rparr>"
  let ?s4 = "\<lparr>setsize = 1, tasks = [\<lparr>pc = Publish, setlenStart = 1, setlen = 2\<rparr>]\<rparr>"
  let ?s5 = "\<lparr>setsize = 2, tasks = [\<lparr>pc = Returned, setlenStart = 1, setlen = 2\<rparr>]\<rparr>"
  have 1: "sys_step init ?s1"
    using sys_step.call[of init] by (simp add: init_def)
  have 2: "sys_step ?s1 ?s2"
    using sys_step.run[of 0 ?s1, OF _ task_step.load] by simp
  have 3: "sys_step ?s2 ?s3"
    using sys_step.run[of 0 ?s2, OF _ task_step.einval] by simp
  have 4: "sys_step ?s3 ?s4"
    using sys_step.run[of 0 ?s3, OF _ task_step.success] by simp
  have 5: "sys_step ?s4 ?s5"
    using sys_step.run[of 0 ?s4, OF _ task_step.cas_swapped] by simp
  have r: "reachable ?s4"
    using reachable.start 1 2 3 4 reachable.step by blast
  have st: "sys_step\<^sup>*\<^sup>* ?s4 ?s5" using 5 by (rule r_into_rtranclp)
  show ?thesis using setsize_monotone[of ?s4 ?s5] r st by simp
qed

end
